theory Spec2Isabelle
  imports Complex_Main "HOL-Library.Sublist"
begin

section \<open>nil-triggers: heuristic detectors over a conversation\<close>

text \<open>
  A shallow embedding of the trigger library (\<^verbatim>\<open>detectLoop\<close>,
  \<^verbatim>\<open>detectVelocityCollapse\<close>, \<^verbatim>\<open>detectScopeCreep\<close>,
  \<^verbatim>\<open>detectSaturation\<close>, \<^verbatim>\<open>check\<close> and the internals
  \<^verbatim>\<open>tokenise\<close>, \<^verbatim>\<open>cosineSimilarity\<close>, \<^verbatim>\<open>getGaps\<close>).

  Conventions of the embedding:
  \<^item> a JavaScript number is a \<open>jsnum\<close>: a finite double, given by the real it denotes,
    or one of \<open>Infinity\<close>, \<open>-Infinity\<close> and \<open>NaN\<close>. Every arithmetic operation rounds
    its exact result to the nearest double, ties to the even significand, and overflows
    to an infinity, as IEEE 754 binary64 does. The sign of zero is not modelled: no
    result of this library depends on it;
  \<^item> the options that count messages (\<open>threshold\<close>, \<open>windowSize\<close>,
    \<open>assistantResponseThreshold\<close>) are integers, negative ones included;
  \<^item> a string is a list of code units below 256 (Latin-1), and its \<open>length\<close> is the
    length of that list;
  \<^item> a \<open>TypeError\<close> is a value: a function that can throw returns \<open>error + 'a\<close>.
\<close>

subsection \<open>Numbers\<close>

datatype jsnum = Fin real | PInf | NInf | NaN

text \<open>Rounding to the nearest integer, a tie going to the even one.\<close>

definition round_half_even :: "real \<Rightarrow> int" where
  "round_half_even x =
     (let f = \<lfloor>x\<rfloor>; d = x - of_int f
      in if d < 1 / 2 then f else if 1 / 2 < d then f + 1 else if even f then f else f + 1)"

text \<open>The distance between neighbouring doubles around \<open>x\<close>: the significand has 53 bits,
  and in the subnormal range (below 2 to the power -1022) the spacing stays that of the
  least normal binade.\<close>

definition ulp :: "real \<Rightarrow> real" where
  "ulp x = 2 powr of_int (max \<lfloor>log 2 \<bar>x\<bar>\<rfloor> (- 1022) - 52)"

text \<open>The double nearest to the real \<open>x\<close>; a result of magnitude 2 to the power 1024 or
  more is an infinity.\<close>

definition round_double :: "real \<Rightarrow> jsnum" where
  "round_double x =
     (if x = 0 then Fin 0
      else let y = of_int (round_half_even (x / ulp x)) * ulp x
           in if 2 ^ 1024 \<le> \<bar>y\<bar> then (if 0 < x then PInf else NInf) else Fin y)"

fun js_add :: "jsnum \<Rightarrow> jsnum \<Rightarrow> jsnum" where
  "js_add NaN _ = NaN"
| "js_add _ NaN = NaN"
| "js_add (Fin x) (Fin y) = round_double (x + y)"
| "js_add PInf NInf = NaN"
| "js_add NInf PInf = NaN"
| "js_add PInf _ = PInf"
| "js_add _ PInf = PInf"
| "js_add NInf _ = NInf"
| "js_add _ NInf = NInf"

fun js_sub :: "jsnum \<Rightarrow> jsnum \<Rightarrow> jsnum" where
  "js_sub NaN _ = NaN"
| "js_sub _ NaN = NaN"
| "js_sub (Fin x) (Fin y) = round_double (x - y)"
| "js_sub PInf PInf = NaN"
| "js_sub NInf NInf = NaN"
| "js_sub PInf _ = PInf"
| "js_sub _ NInf = PInf"
| "js_sub NInf _ = NInf"
| "js_sub _ PInf = NInf"

definition js_sign_mul :: "bool \<Rightarrow> jsnum" where
  "js_sign_mul positive = (if positive then PInf else NInf)"

fun js_mul :: "jsnum \<Rightarrow> jsnum \<Rightarrow> jsnum" where
  "js_mul NaN _ = NaN"
| "js_mul _ NaN = NaN"
| "js_mul (Fin x) (Fin y) = round_double (x * y)"
| "js_mul (Fin x) PInf = (if x = 0 then NaN else js_sign_mul (0 < x))"
| "js_mul (Fin x) NInf = (if x = 0 then NaN else js_sign_mul (x < 0))"
| "js_mul PInf (Fin y) = (if y = 0 then NaN else js_sign_mul (0 < y))"
| "js_mul NInf (Fin y) = (if y = 0 then NaN else js_sign_mul (y < 0))"
| "js_mul PInf PInf = PInf"
| "js_mul NInf NInf = PInf"
| "js_mul PInf NInf = NInf"
| "js_mul NInf PInf = NInf"

text \<open>Division: the rounded quotient when the divisor is not zero; \<open>x / 0\<close> is an infinity
  of the sign of \<open>x\<close>, and \<open>0 / 0\<close> is \<open>NaN\<close>.\<close>

fun js_div :: "jsnum \<Rightarrow> jsnum \<Rightarrow> jsnum" where
  "js_div NaN _ = NaN"
| "js_div _ NaN = NaN"
| "js_div (Fin x) (Fin y) =
     (if y \<noteq> 0 then round_double (x / y) else if x = 0 then NaN else js_sign_mul (0 < x))"
| "js_div (Fin x) PInf = Fin 0"
| "js_div (Fin x) NInf = Fin 0"
| "js_div PInf (Fin y) = js_sign_mul (0 \<le> y)"
| "js_div NInf (Fin y) = js_sign_mul (y < 0)"
| "js_div PInf PInf = NaN"
| "js_div PInf NInf = NaN"
| "js_div NInf PInf = NaN"
| "js_div NInf NInf = NaN"

fun js_sqrt :: "jsnum \<Rightarrow> jsnum" where
  "js_sqrt (Fin x) = (if x < 0 then NaN else round_double (sqrt x))"
| "js_sqrt PInf = PInf"
| "js_sqrt NInf = NaN"
| "js_sqrt NaN = NaN"

text \<open>Comparisons: every comparison with \<open>NaN\<close> is false.\<close>

fun js_lt :: "jsnum \<Rightarrow> jsnum \<Rightarrow> bool" where
  "js_lt NaN _ = False"
| "js_lt _ NaN = False"
| "js_lt (Fin x) (Fin y) = (x < y)"
| "js_lt PInf _ = False"
| "js_lt _ NInf = False"
| "js_lt NInf _ = True"
| "js_lt _ PInf = True"

fun js_eq :: "jsnum \<Rightarrow> jsnum \<Rightarrow> bool" where
  "js_eq (Fin x) (Fin y) = (x = y)"
| "js_eq PInf PInf = True"
| "js_eq NInf NInf = True"
| "js_eq _ _ = False"

definition js_gt :: "jsnum \<Rightarrow> jsnum \<Rightarrow> bool" where
  "js_gt a b = js_lt b a"

definition js_le :: "jsnum \<Rightarrow> jsnum \<Rightarrow> bool" where
  "js_le a b = (js_lt a b \<or> js_eq a b)"

definition js_ge :: "jsnum \<Rightarrow> jsnum \<Rightarrow> bool" where
  "js_ge a b = js_le b a"

text \<open>The length of a string or of an array: an integer below 2 to the power 53, which
  is a double.\<close>

definition num_of_nat :: "nat \<Rightarrow> jsnum" where
  "num_of_nat n = Fin (real n)"

subsection \<open>Arrays\<close>

text \<open>\<^verbatim>\<open>Array.prototype.slice(start, end)\<close>: a negative index counts from the end, both
  are clamped to the array, and an absent \<open>end\<close> is the length. \<open>-0\<close> is \<open>0\<close>, so
  \<^verbatim>\<open>xs.slice(-0)\<close> is the whole array.\<close>

definition slice_index :: "int \<Rightarrow> int \<Rightarrow> int" where
  "slice_index len i = (if i < 0 then max (len + i) 0 else min i len)"

definition js_slice :: "'a list \<Rightarrow> int \<Rightarrow> int option \<Rightarrow> 'a list" where
  "js_slice xs start end =
     (let len = int (length xs);
          k = slice_index len start;
          final = (case end of None \<Rightarrow> len | Some e \<Rightarrow> slice_index len e)
      in take (nat (final - k)) (drop (nat k) xs))"

subsection \<open>Strings\<close>

definition is_upper_unit :: "char \<Rightarrow> bool" where
  "is_upper_unit c =
     (let n = (of_char c :: nat)
      in (65 \<le> n \<and> n \<le> 90) \<or> (192 \<le> n \<and> n \<le> 222 \<and> n \<noteq> 215))"

text \<open>\<^verbatim>\<open>String.prototype.toLowerCase\<close> on Latin-1: \<open>A-Z\<close> and the capital letters
  \<open>0xC0-0xDE\<close> (but the multiplication sign \<open>0xD7\<close>) move up by 32.\<close>

definition lower_unit :: "char \<Rightarrow> char" where
  "lower_unit c = (if is_upper_unit c then char_of ((of_char c :: nat) + 32) else c)"

definition toLowerCase :: "string \<Rightarrow> string" where
  "toLowerCase s = map lower_unit s"

text \<open>The regular expression classes \<^verbatim>\<open>\w\<close> (\<open>[A-Za-z0-9_]\<close>) and \<^verbatim>\<open>\s\<close> (tab, line
  feed, vertical tab, form feed, carriage return, space, no-break space).\<close>

definition is_word :: "char \<Rightarrow> bool" where
  "is_word c =
     (let n = (of_char c :: nat)
      in (65 \<le> n \<and> n \<le> 90) \<or> (97 \<le> n \<and> n \<le> 122) \<or> (48 \<le> n \<and> n \<le> 57) \<or> n = 95)"

definition is_space :: "char \<Rightarrow> bool" where
  "is_space c = (let n = (of_char c :: nat) in (9 \<le> n \<and> n \<le> 13) \<or> n = 32 \<or> n = 160)"

text \<open>\<^verbatim>\<open>s.split(/\s+/)\<close>: the pieces between the maximal runs of white space; a run at
  either end leaves an empty piece there, and the empty string gives one empty piece.\<close>

function split_ws :: "string \<Rightarrow> string \<Rightarrow> string list" where
  "split_ws cur [] = [cur]"
| "split_ws cur (c # cs) =
     (if is_space c then cur # split_ws [] (dropWhile is_space cs)
      else split_ws (cur @ [c]) cs)"
  by pat_completeness auto
termination
  by (relation "measure (\<lambda>(cur, s). length s)")
     (auto simp: le_imp_less_Suc length_dropWhile_le)

text \<open>\<^verbatim>\<open>s.includes(p)\<close>: \<open>p\<close> occurs in \<open>s\<close> as a contiguous piece.\<close>

fun is_prefix :: "string \<Rightarrow> string \<Rightarrow> bool" where
  "is_prefix [] s = True"
| "is_prefix (p # ps) [] = False"
| "is_prefix (p # ps) (c # cs) = (p = c \<and> is_prefix ps cs)"

fun js_includes :: "string \<Rightarrow> string \<Rightarrow> bool" where
  "js_includes [] p = is_prefix p []"
| "js_includes (c # cs) p = (is_prefix p (c # cs) \<or> js_includes cs p)"

subsection \<open>Plain objects used as maps\<close>

text \<open>
  \<^verbatim>\<open>cosineSimilarity\<close> counts tokens in an object literal \<^verbatim>\<open>{}\<close>. Such an object
  inherits from \<^verbatim>\<open>Object.prototype\<close>, so a read of a key it does not own finds the
  inherited property of that name when there is one: the built-in functions
  (\<^verbatim>\<open>constructor\<close> is \<^verbatim>\<open>Object\<close>) and the accessor \<^verbatim>\<open>__proto__\<close>, whose getter
  returns the prototype and whose setter ignores a value that is no object.

  The values that occur are numbers, built-in functions, the prototype object, and the
  texts that \<^verbatim>\<open>+ 1\<close> makes of the latter two. No such text is a numeric literal (each
  begins with \<^verbatim>\<open>function\<close> or \<^verbatim>\<open>[object\<close>), so its conversion to a number is \<open>NaN\<close>.
\<close>

datatype jsval = Undefined | Num jsnum | Text string | Builtin string | ObjectPrototype

type_synonym jsobject = "(string \<times> jsval) list"

definition builtin_names :: "string list" where
  "builtin_names =
     [''constructor'', ''hasOwnProperty'', ''isPrototypeOf'', ''propertyIsEnumerable'',
      ''toLocaleString'', ''toString'', ''valueOf'', ''__defineGetter__'',
      ''__defineSetter__'', ''__lookupGetter__'', ''__lookupSetter__'']"

definition inherited :: "string \<Rightarrow> jsval" where
  "inherited k =
     (if k = ''__proto__'' then ObjectPrototype
      else if k = ''constructor'' then Builtin ''Object''
      else if k \<in> set builtin_names then Builtin k
      else Undefined)"

definition get_prop :: "jsobject \<Rightarrow> string \<Rightarrow> jsval" where
  "get_prop obj k = (case map_of obj k of Some v \<Rightarrow> v | None \<Rightarrow> inherited k)"

fun update_prop :: "string \<Rightarrow> jsval \<Rightarrow> jsobject \<Rightarrow> jsobject" where
  "update_prop k v [] = [(k, v)]"
| "update_prop k v ((k', v') # obj) =
     (if k = k' then (k, v) # obj else (k', v') # update_prop k v obj)"

text \<open>An assignment \<^verbatim>\<open>obj[k] = v\<close> of a primitive value \<open>v\<close>.\<close>

definition set_prop :: "jsobject \<Rightarrow> string \<Rightarrow> jsval \<Rightarrow> jsobject" where
  "set_prop obj k v = (if k = ''__proto__'' then obj else update_prop k v obj)"

definition object_keys :: "jsobject \<Rightarrow> string list" where
  "object_keys obj = map fst obj"

fun truthy :: "jsval \<Rightarrow> bool" where
  "truthy Undefined = False"
| "truthy (Num n) = (n \<noteq> Fin 0 \<and> n \<noteq> NaN)"
| "truthy (Text s) = (s \<noteq> [])"
| "truthy (Builtin f) = True"
| "truthy ObjectPrototype = True"

text \<open>\<^verbatim>\<open>v || d\<close>\<close>

definition js_or :: "jsval \<Rightarrow> jsval \<Rightarrow> jsval" where
  "js_or v d = (if truthy v then v else d)"

text \<open>\<^verbatim>\<open>v + 1\<close>: numeric addition on a number, concatenation with \<^verbatim>\<open>"1"\<close> once the
  left operand is, or converts to, a string.\<close>

fun plus_one :: "jsval \<Rightarrow> jsval" where
  "plus_one (Num n) = Num (js_add n (Fin 1))"
| "plus_one (Text s) = Text (s @ ''1'')"
| "plus_one (Builtin f) = Text (''function '' @ f @ ''() { [native code] }'' @ ''1'')"
| "plus_one ObjectPrototype = Text (''[object Object]'' @ ''1'')"
| "plus_one Undefined = Num NaN"

fun to_number :: "jsval \<Rightarrow> jsnum" where
  "to_number (Num n) = n"
| "to_number _ = NaN"

subsection \<open>Internals: \<^verbatim>\<open>tokenise\<close>, \<^verbatim>\<open>cosineSimilarity\<close>, \<^verbatim>\<open>getGaps\<close>\<close>

definition tokenise :: "string \<Rightarrow> string list" where
  "tokenise text =
     filter (\<lambda>t. t \<noteq> [])
       (split_ws [] (filter (\<lambda>c. is_word c \<or> is_space c) (toLowerCase text)))"

text \<open>\<^verbatim>\<open>for (const t of tokens) map[t] = (map[t] || 0) + 1\<close>\<close>

fun freq_loop :: "jsobject \<Rightarrow> string list \<Rightarrow> jsobject" where
  "freq_loop m [] = m"
| "freq_loop m (t # ts) =
     freq_loop (set_prop m t (plus_one (js_or (get_prop m t) (Num (Fin 0))))) ts"

definition freq :: "string list \<Rightarrow> jsobject" where
  "freq tokens = freq_loop [] tokens"

text \<open>\<^verbatim>\<open>new Set(keys)\<close>: the keys in the order of their first occurrence.\<close>

fun new_Set :: "string list \<Rightarrow> string list \<Rightarrow> string list" where
  "new_Set acc [] = acc"
| "new_Set acc (k # ks) = new_Set (if k \<in> set acc then acc else acc @ [k]) ks"

record totals =
  dot :: jsnum
  magA :: jsnum
  magB :: jsnum

fun key_loop :: "jsobject \<Rightarrow> jsobject \<Rightarrow> totals \<Rightarrow> string list \<Rightarrow> totals" where
  "key_loop a b s [] = s"
| "key_loop a b s (key # keys) =
     (let va = to_number (js_or (get_prop a key) (Num (Fin 0)));
          vb = to_number (js_or (get_prop b key) (Num (Fin 0)))
      in key_loop a b
           \<lparr> dot = js_add (dot s) (js_mul va vb),
             magA = js_add (magA s) (js_mul va va),
             magB = js_add (magB s) (js_mul vb vb) \<rparr> keys)"

definition cosineSimilarity :: "string list \<Rightarrow> string list \<Rightarrow> jsnum" where
  "cosineSimilarity tokensA tokensB =
     (let a = freq tokensA;
          b = freq tokensB;
          allKeys = new_Set [] (object_keys a @ object_keys b);
          s = key_loop a b \<lparr> dot = Fin 0, magA = Fin 0, magB = Fin 0 \<rparr> allKeys;
          denom = js_mul (js_sqrt (magA s)) (js_sqrt (magB s))
      in if js_eq denom (Fin 0) then Fin 0 else js_div (dot s) denom)"

subsection \<open>Messages\<close>

datatype role = User | Assistant

record message =
  role :: role
  content :: string
  timestamp :: real

text \<open>\<^verbatim>\<open>for (let i = 1; i < messages.length; i++)
  gaps.push(messages[i].timestamp - messages[i - 1].timestamp)\<close>\<close>

function gaps_loop :: "message list \<Rightarrow> nat \<Rightarrow> jsnum list \<Rightarrow> jsnum list" where
  "gaps_loop messages i gaps =
     (if i < length messages
      then gaps_loop messages (i + 1)
             (gaps @ [js_sub (Fin (timestamp (messages ! i)))
                        (Fin (timestamp (messages ! (i - 1))))])
      else gaps)"
  by pat_completeness auto
termination
  by (relation "measure (\<lambda>(messages, i, gaps). length messages - i)") auto

definition getGaps :: "message list \<Rightarrow> jsnum list" where
  "getGaps messages = gaps_loop messages 1 []"

subsection \<open>Loop detection\<close>

record loop_options =
  threshold :: "int option"
  similarityFloor :: "jsnum option"

definition no_loop_options :: loop_options where
  "no_loop_options = \<lparr> threshold = None, similarityFloor = None \<rparr>"

text \<open>\<^verbatim>\<open>for (let i = 1; i < recent.length; i++) similarities.push(cosineSimilarity(
  tokenise(recent[i - 1].content), tokenise(recent[i].content)))\<close>\<close>

function similarities_loop :: "message list \<Rightarrow> nat \<Rightarrow> jsnum list \<Rightarrow> jsnum list" where
  "similarities_loop recent i similarities =
     (if i < length recent
      then similarities_loop recent (i + 1)
             (similarities @
               [cosineSimilarity (tokenise (content (recent ! (i - 1))))
                  (tokenise (content (recent ! i)))])
      else similarities)"
  by pat_completeness auto
termination
  by (relation "measure (\<lambda>(recent, i, similarities). length recent - i)") auto

text \<open>An absent options argument is \<^verbatim>\<open>{}\<close>, and an absent field takes its default.
  A numeric literal is the double nearest to it: \<open>3\<close>, \<open>1.5\<close> and \<open>200\<close> are doubles,
  \<open>0.6\<close> and \<open>0.3\<close> are not.\<close>

definition detectLoop :: "message list \<Rightarrow> loop_options option \<Rightarrow> bool" where
  "detectLoop messages options =
     (let opts = (case options of None \<Rightarrow> no_loop_options | Some r \<Rightarrow> r);
          threshold = (case threshold opts of None \<Rightarrow> 3 | Some t \<Rightarrow> t);
          similarityFloor = (case similarityFloor opts of None \<Rightarrow> round_double (6 / 10) | Some f \<Rightarrow> f);
          userMessages = js_slice (filter (\<lambda>m. role m = User) messages) (- threshold - 1) None
      in if int (length userMessages) < threshold then False
         else let recent = js_slice userMessages (- threshold) None;
                  similarities = similarities_loop recent 1 []
              in list_all (\<lambda>s. js_ge s similarityFloor) similarities)"

subsection \<open>Velocity collapse\<close>

record velocity_options =
  lengthDropRatio :: "jsnum option"
  frequencyDropRatio :: "jsnum option"
  vc_windowSize :: "int option"

definition no_velocity_options :: velocity_options where
  "no_velocity_options =
     \<lparr> lengthDropRatio = None, frequencyDropRatio = None, vc_windowSize = None \<rparr>"

text \<open>\<^verbatim>\<open>ms.reduce((sum, m) => sum + m.content.length, 0) / ms.length\<close>\<close>

definition avgLength :: "message list \<Rightarrow> jsnum" where
  "avgLength ms =
     js_div (foldl (\<lambda>sum m. js_add sum (num_of_nat (length (content m)))) (Fin 0) ms)
       (num_of_nat (length ms))"

text \<open>\<^verbatim>\<open>gaps.reduce((a, b) => a + b, 0) / gaps.length\<close>\<close>

definition avgGap :: "jsnum list \<Rightarrow> jsnum" where
  "avgGap gaps = js_div (foldl (\<lambda>a b. js_add a b) (Fin 0) gaps) (num_of_nat (length gaps))"

definition detectVelocityCollapse :: "message list \<Rightarrow> velocity_options option \<Rightarrow> bool" where
  "detectVelocityCollapse messages options =
     (let opts = (case options of None \<Rightarrow> no_velocity_options | Some r \<Rightarrow> r);
          lengthDropRatio = (case lengthDropRatio opts of None \<Rightarrow> round_double (3 / 10) | Some r \<Rightarrow> r);
          frequencyDropRatio = (case frequencyDropRatio opts of None \<Rightarrow> Fin 3 | Some r \<Rightarrow> r);
          windowSize = (case vc_windowSize opts of None \<Rightarrow> 4 | Some w \<Rightarrow> w);
          userMessages = filter (\<lambda>m. role m = User) messages
      in if int (length userMessages) < windowSize * 2 then False
         else let earlier = js_slice userMessages 0 (Some (- windowSize));
                  recent = js_slice userMessages (- windowSize) None;
                  earlierAvgLength = avgLength earlier;
                  recentAvgLength = avgLength recent
              in if js_gt earlierAvgLength (Fin 0) \<and>
                    js_le (js_div recentAvgLength earlierAvgLength) lengthDropRatio
                 then True
                 else let earlierGaps = getGaps earlier;
                          recentGaps = getGaps recent
                      in if length earlierGaps = 0 \<or> length recentGaps = 0 then False
                         else let earlierAvgGap = avgGap earlierGaps;
                                  recentAvgGap = avgGap recentGaps
                              in if js_gt earlierAvgGap (Fin 0) \<and>
                                    js_ge (js_div recentAvgGap earlierAvgGap) frequencyDropRatio
                                 then True
                                 else False)"

subsection \<open>Scope creep\<close>

record scope_options =
  sc_windowSize :: "int option"
  growthRatio :: "jsnum option"

definition no_scope_options :: scope_options where
  "no_scope_options = \<lparr> sc_windowSize = None, growthRatio = None \<rparr>"

text \<open>\<^verbatim>\<open>ms.filter((m) => m.content.includes("?")).length\<close>\<close>

definition questions :: "message list \<Rightarrow> nat" where
  "questions ms = length (filter (\<lambda>m. js_includes (content m) ''?'') ms)"

definition detectScopeCreep :: "message list \<Rightarrow> scope_options option \<Rightarrow> bool" where
  "detectScopeCreep messages options =
     (let opts = (case options of None \<Rightarrow> no_scope_options | Some r \<Rightarrow> r);
          windowSize = (case sc_windowSize opts of None \<Rightarrow> 5 | Some w \<Rightarrow> w);
          growthRatio = (case growthRatio opts of None \<Rightarrow> Fin (3 / 2) | Some r \<Rightarrow> r);
          userMessages = filter (\<lambda>m. role m = User) messages
      in if int (length userMessages) < windowSize * 2 then False
         else let earlier = js_slice userMessages (- windowSize * 2) (Some (- windowSize));
                  recent = js_slice userMessages (- windowSize) None;
                  earlierAvgLength = avgLength earlier;
                  recentAvgLength = avgLength recent
              in if js_ge (js_div recentAvgLength earlierAvgLength) growthRatio
                 then let recentQuestions = questions recent;
                          earlierQuestions = questions earlier
                      in if recentQuestions \<ge> earlierQuestions then True else False
                 else False)"

subsection \<open>Saturation\<close>

datatype error = TypeError

record saturation_options =
  assistantResponseThreshold :: "int option"
  minAssistantLength :: "jsnum option"
  requestPatterns :: "string list option"

definition no_saturation_options :: saturation_options where
  "no_saturation_options =
     \<lparr> assistantResponseThreshold = None, minAssistantLength = None, requestPatterns = None \<rparr>"

definition default_requestPatterns :: "string list" where
  "default_requestPatterns =
     [''can you also'', ''what about'', ''another'', ''more'', ''one more'',
      ''anything else'', ''what else'', ''give me'', ''how about'', ''and also'',
      ''additionally'']"

text \<open>\<^verbatim>\<open>xs[i]\<close> is \<^verbatim>\<open>undefined\<close> (here \<open>None\<close>) when \<open>i\<close> is no index of \<open>xs\<close>; reading a
  property of \<^verbatim>\<open>undefined\<close> throws a \<open>TypeError\<close>.\<close>

definition js_index :: "'a list \<Rightarrow> int \<Rightarrow> 'a option" where
  "js_index xs i = (if 0 \<le> i \<and> i < int (length xs) then Some (xs ! nat i) else None)"

definition detectSaturation :: "message list \<Rightarrow> saturation_options option \<Rightarrow> error + bool" where
  "detectSaturation messages options =
     (let opts = (case options of None \<Rightarrow> no_saturation_options | Some r \<Rightarrow> r);
          assistantResponseThreshold =
            (case assistantResponseThreshold opts of None \<Rightarrow> 3 | Some t \<Rightarrow> t);
          minAssistantLength = (case minAssistantLength opts of None \<Rightarrow> Fin 200 | Some n \<Rightarrow> n);
          requestPatterns =
            (case requestPatterns opts of None \<Rightarrow> default_requestPatterns | Some ps \<Rightarrow> ps);
          substantiveResponses =
            filter (\<lambda>m. role m = Assistant \<and>
                         js_ge (num_of_nat (length (content m))) minAssistantLength) messages
      in if int (length substantiveResponses) < assistantResponseThreshold then Inr False
         else case js_index substantiveResponses (assistantResponseThreshold - 1) of
                None \<Rightarrow> Inl TypeError
              | Some response \<Rightarrow>
                  let thresholdTimestamp = timestamp response;
                      userMessagesAfterThreshold =
                        filter (\<lambda>m. role m = User \<and> timestamp m > thresholdTimestamp) messages
                  in if length userMessagesAfterThreshold = 0 then Inr False
                     else let requestingMore =
                                filter (\<lambda>m. let lower = toLowerCase (content m)
                                             in list_ex (\<lambda>pattern. js_includes lower pattern)
                                                  requestPatterns)
                                  userMessagesAfterThreshold
                          in Inr (length requestingMore \<ge> 2))"

subsection \<open>Combined check\<close>

record check_options =
  loop :: "loop_options option"
  velocityCollapse :: "velocity_options option"
  scopeCreep :: "scope_options option"
  saturation :: "saturation_options option"

definition no_check_options :: check_options where
  "no_check_options =
     \<lparr> loop = None, velocityCollapse = None, scopeCreep = None, saturation = None \<rparr>"

record result =
  triggered :: bool
  signals :: "string list"

text \<open>\<^verbatim>\<open>if (fired) signals.push(tag)\<close>\<close>

definition push_if :: "bool \<Rightarrow> string \<Rightarrow> string list \<Rightarrow> string list" where
  "push_if fired tag tags = (if fired then tags @ [tag] else tags)"

definition check :: "message list \<Rightarrow> check_options option \<Rightarrow> error + result" where
  "check messages options =
     (let opts = (case options of None \<Rightarrow> no_check_options | Some r \<Rightarrow> r);
          signals = [];
          signals = push_if (detectLoop messages (loop opts)) ''loop'' signals;
          signals = push_if (detectVelocityCollapse messages (velocityCollapse opts))
                      ''velocity-collapse'' signals;
          signals = push_if (detectScopeCreep messages (scopeCreep opts)) ''scope-creep'' signals
      in case detectSaturation messages (saturation opts) of
           Inl e \<Rightarrow> Inl e
         | Inr fired \<Rightarrow>
             let signals = push_if fired ''saturation'' signals
             in Inr \<lparr> triggered = length signals > 0, signals = signals \<rparr>)"

section \<open>Properties of the arithmetic\<close>

lemma round_half_even_int: "round_half_even (of_int k) = k"
  by (simp add: round_half_even_def)

lemma round_half_even_close: "\<bar>of_int (round_half_even x) - x\<bar> \<le> 1 / 2"
  unfolding round_half_even_def Let_def
  by (auto simp: abs_le_iff)

lemma ulp_pos: "0 < ulp x"
  by (simp add: ulp_def)

lemma floor_log2_bounds:
  assumes "0 < a"
  shows "2 powr of_int \<lfloor>log 2 a\<rfloor> \<le> a" "a < 2 powr (of_int \<lfloor>log 2 a\<rfloor> + 1)"
  using floor_log_eq_powr_iff[of a 2 "\<lfloor>log 2 a\<rfloor>"] assms by simp_all

lemma round_double_exact:
  assumes "x / ulp x = of_int k" and "\<bar>x\<bar> < 2 ^ 1024"
  shows "round_double x = Fin x"
proof (cases "x = 0")
  case True
  then show ?thesis by (simp add: round_double_def)
next
  case False
  have "of_int (round_half_even (x / ulp x)) = x / ulp x"
    by (simp only: assms(1) round_half_even_int)
  then have "of_int (round_half_even (x / ulp x)) * ulp x = x"
    using ulp_pos[of x] by simp
  then show ?thesis
    using False assms(2) by (simp add: round_double_def)
qed

lemma round_double_bound:
  assumes lo: "2 powr (- 1022) \<le> \<bar>x\<bar>" and hi: "\<bar>x\<bar> < 2 ^ 1023"
  shows "\<exists>y. round_double x = Fin y \<and> \<bar>y - x\<bar> \<le> \<bar>x\<bar> / 2 ^ 53"
proof -
  define e where "e = \<lfloor>log 2 \<bar>x\<bar>\<rfloor>"
  have x0: "x \<noteq> 0" "0 < \<bar>x\<bar>"
    using lo by (auto simp: not_le[symmetric] dest: order_trans[OF _ lo])
  have el: "2 powr of_int e \<le> \<bar>x\<bar>"
    using floor_log2_bounds(1)[OF x0(2)] by (simp add: e_def)
  have "- 1022 \<le> log 2 \<bar>x\<bar>"
    using lo x0 by (simp add: le_log_iff)
  then have e_lo: "- 1022 \<le> e"
    by (simp add: e_def le_floor_iff)
  then have u: "ulp x = 2 powr (of_int e - 52)"
    by (simp add: ulp_def e_def[symmetric] max_def)
  have u53: "ulp x / 2 = 2 powr of_int e / 2 ^ 53"
    by (simp add: u powr_diff powr_realpow[symmetric])
  define y where "y = of_int (round_half_even (x / ulp x)) * ulp x"
  have "\<bar>of_int (round_half_even (x / ulp x)) - x / ulp x\<bar> * ulp x \<le> 1 / 2 * ulp x"
    using round_half_even_close[of "x / ulp x"] ulp_pos[of x]
    by (intro mult_right_mono) simp_all
  moreover have "\<bar>of_int (round_half_even (x / ulp x)) - x / ulp x\<bar> * ulp x = \<bar>y - x\<bar>"
  proof -
    have "\<bar>of_int (round_half_even (x / ulp x)) - x / ulp x\<bar> * ulp x =
        \<bar>(of_int (round_half_even (x / ulp x)) - x / ulp x) * ulp x\<bar>"
      using ulp_pos[of x] by (simp add: abs_mult)
    also have "(of_int (round_half_even (x / ulp x)) - x / ulp x) * ulp x = y - x"
      using ulp_pos[of x] by (simp add: y_def left_diff_distrib)
    finally show ?thesis .
  qed
  ultimately have close: "\<bar>y - x\<bar> \<le> ulp x / 2" by simp
  also have "\<dots> \<le> \<bar>x\<bar> / 2 ^ 53"
    unfolding u53 using el by (simp add: divide_right_mono)
  finally have err: "\<bar>y - x\<bar> \<le> \<bar>x\<bar> / 2 ^ 53" .
  have "\<bar>y\<bar> \<le> \<bar>x\<bar> + \<bar>x\<bar> / 2 ^ 53" using err by linarith
  also have "\<dots> \<le> \<bar>x\<bar> + \<bar>x\<bar>" by simp
  also have "\<dots> < 2 ^ 1023 + 2 ^ 1023" using hi by linarith
  also have "\<dots> = (2 ^ 1024 :: real)" by simp
  finally have "\<not> 2 ^ 1024 \<le> \<bar>y\<bar>" by simp
  then have "round_double x = Fin y"
    using x0 by (simp add: round_double_def y_def[symmetric] Let_def)
  with err show ?thesis by blast
qed

lemma real_le_2_53: "n \<le> 2 ^ 53 \<Longrightarrow> real n \<le> 2 ^ 53"
proof -
  assume "n \<le> 2 ^ 53"
  then have "real n \<le> real (2 ^ 53)" by (simp only: of_nat_le_iff)
  then show ?thesis by simp
qed

lemma round_double_nat:
  assumes "n \<le> 2 ^ 53"
  shows "round_double (real n) = Fin (real n)"
proof (cases "n = 0")
  case True
  then show ?thesis by (simp add: round_double_def)
next
  case False
  define e where "e = \<lfloor>log 2 (real n)\<rfloor>"
  have pos: "0 < real n" using False by simp
  have el: "2 powr of_int e \<le> real n"
    using floor_log2_bounds(1)[OF pos] by (simp add: e_def)
  have "0 \<le> log 2 (real n)" using False by simp
  then have e0: "0 \<le> e" by (simp add: e_def)
  then have u: "ulp (real n) = 2 powr (of_int e - 52)"
    by (simp add: ulp_def e_def[symmetric] max_def)
  have le53: "real n \<le> 2 ^ 53" using assms by (rule real_le_2_53)
  have "(2::real) ^ 53 < 2 ^ 1024" by (rule power_strict_increasing) simp_all
  then have small: "\<bar>real n\<bar> < 2 ^ 1024" using le53 by simp
  have "\<exists>k. real n / ulp (real n) = of_int k"
  proof (cases "e \<le> 52")
    case True
    have "real n / ulp (real n) = real n * 2 powr (52 - of_int e)"
      by (simp add: u powr_diff)
    also have "2 powr (52 - of_int e) = 2 powr real (nat (52 - e))"
      using True by simp
    also have "\<dots> = 2 ^ nat (52 - e)"
      by (simp only: powr_realpow[of 2, simplified])
    finally have "real n / ulp (real n) = of_int (int n * 2 ^ nat (52 - e))"
      by simp
    then show ?thesis by blast
  next
    case False
    then have "53 \<le> e" by simp
    then have "(2::real) powr of_int 53 \<le> 2 powr of_int e"
      by (intro powr_mono) simp_all
    moreover have "(2::real) powr of_int 53 = 2 ^ 53"
      using powr_realpow[of "2::real" 53] by simp
    ultimately have "(2::real) ^ 53 \<le> real n"
      using el by linarith
    then have n: "real n = 2 ^ 53" using le53 by (rule order_antisym[rotated])
    have "log 2 (real n) = real 53" unfolding n by (rule log_pow_cancel) simp_all
    then have e53: "e = 53" by (simp add: e_def)
    have "ulp (real n) = 2 powr 1" unfolding u e53 by simp
    then have "real n / ulp (real n) = of_int (2 ^ 52)"
      unfolding n by simp
    then show ?thesis by blast
  qed
  then obtain k where "real n / ulp (real n) = of_int k" by blast
  then show ?thesis using small by (rule round_double_exact)
qed

lemma round_double_Nats:
  assumes "x \<in> \<nat>" "x \<le> 9007199254740992"
  shows "round_double x = Fin x"
proof -
  obtain n where n: "x = real n" using assms(1) by (auto simp: Nats_def)
  have "real n \<le> real (2 ^ 53)" using assms(2) by (simp add: n)
  then have "n \<le> 2 ^ 53" by (simp only: of_nat_le_iff)
  then show ?thesis unfolding n by (rule round_double_nat)
qed

lemma round_double_crude:
  assumes "1 / 10 ^ 9 \<le> x" "x \<le> 10 ^ 9"
  shows "\<exists>y. round_double x = Fin y \<and> 999 / 1000 * x \<le> y \<and> y \<le> 1001 / 1000 * x"
proof -
  have "(0::real) < 1 / 10 ^ 9" by simp
  then have pos: "0 < x" using assms(1) by (rule less_le_trans)
  have "(2::real) powr (- real 1022) = inverse (2 powr real 1022)" by (rule powr_minus)
  also have "(2::real) powr real 1022 = 2 ^ 1022" by (rule powr_realpow) simp
  finally have "(2::real) powr (- 1022) = 1 / 2 ^ 1022"
    by (simp only: of_nat_numeral inverse_eq_divide)
  also have "\<dots> \<le> 1 / 10 ^ 9"
  proof -
    have "(10::real) ^ 9 \<le> 2 ^ 30" by simp
    also have "\<dots> \<le> 2 ^ 1022" by (rule power_increasing) simp_all
    finally show ?thesis by (intro divide_left_mono) simp_all
  qed
  finally have "2 powr (- 1022) \<le> x" using assms(1) by (rule order_trans)
  then have lo: "2 powr (- 1022) \<le> \<bar>x\<bar>" using pos by simp
  have "(10::real) ^ 9 < 2 ^ 30" by simp
  also have "\<dots> \<le> 2 ^ 1023" by (rule power_increasing) simp_all
  finally have "x < 2 ^ 1023" using assms(2) by (rule le_less_trans[rotated])
  then have hi: "\<bar>x\<bar> < 2 ^ 1023" using pos by simp
  from round_double_bound[OF lo hi] obtain y
    where y: "round_double x = Fin y" and err: "\<bar>y - x\<bar> \<le> \<bar>x\<bar> / 2 ^ 53" by blast
  have "x / 2 ^ 53 \<le> x / 1000" using pos by (intro divide_left_mono) simp_all
  then have "\<bar>y - x\<bar> \<le> x / 1000" using err pos by simp
  then have "999 / 1000 * x \<le> y \<and> y \<le> 1001 / 1000 * x" by linarith
  with y show ?thesis by blast
qed

section \<open>Notions of the specification\<close>

text \<open>The last \<open>n\<close> elements of a list (all of them when there are fewer), and a property
  of every consecutive pair of a list.\<close>

definition last_n :: "nat \<Rightarrow> 'a list \<Rightarrow> 'a list" where
  "last_n n xs = drop (length xs - n) xs"

fun consecutive_all :: "('a \<Rightarrow> 'a \<Rightarrow> bool) \<Rightarrow> 'a list \<Rightarrow> bool" where
  "consecutive_all P (x # y # xs) = (P x y \<and> consecutive_all P (y # xs))"
| "consecutive_all P _ = True"

lemma js_slice_neg: "0 < n \<Longrightarrow> js_slice xs (- n) None = drop (length xs - nat n) xs"
  by (auto simp: js_slice_def slice_index_def Let_def max_def nat_diff_distrib' nat_add_distrib)

lemma js_slice_zero: "js_slice xs 0 None = xs"
  by (simp add: js_slice_def slice_index_def)

lemma js_slice_last_n: "0 \<le> n \<Longrightarrow> js_slice xs (- n) None = (if n = 0 then xs else last_n (nat n) xs)"
  using js_slice_neg[of n xs] by (auto simp: js_slice_zero last_n_def)

lemma similarities_loop_eq:
  "similarities_loop recent i sims =
     sims @ map (\<lambda>j. cosineSimilarity (tokenise (content (recent ! (j - 1))))
                       (tokenise (content (recent ! j)))) [i..<length recent]"
proof (induction recent i sims rule: similarities_loop.induct)
  case (1 recent i sims)
  show ?case
  proof (cases "i < length recent")
    case True
    then show ?thesis
      using "1.IH"[OF True] by (subst similarities_loop.simps) (simp add: upt_conv_Cons)
  next
    case False
    then show ?thesis by (subst similarities_loop.simps) simp
  qed
qed

lemma map_upt_zip:
  "map (\<lambda>j. f (xs ! (j - 1)) (xs ! j)) [Suc 0..<length xs] =
     map (\<lambda>(a, b). f a b) (zip xs (tl xs))"
  by (auto simp: list_eq_iff_nth_eq nth_tl)

lemma list_all_zip_tl:
  "list_all P (map (\<lambda>(a, b). f a b) (zip xs (tl xs))) = consecutive_all (\<lambda>a b. P (f a b)) xs"
  by (induction "\<lambda>a b. P (f a b)" xs rule: consecutive_all.induct) auto

lemma list_all_consecutive:
  "list_all P (map (\<lambda>j. f (xs ! (j - 1)) (xs ! j)) [Suc 0..<length xs]) =
     consecutive_all (\<lambda>a b. P (f a b)) xs"
  by (simp only: map_upt_zip list_all_zip_tl)

definition user_messages :: "message list \<Rightarrow> message list" where
  "user_messages messages = filter (\<lambda>m. role m = User) messages"

definition loop_threshold :: "loop_options option \<Rightarrow> int" where
  "loop_threshold options =
     (case options of None \<Rightarrow> 3 | Some r \<Rightarrow> (case threshold r of None \<Rightarrow> 3 | Some t \<Rightarrow> t))"

definition loop_similarityFloor :: "loop_options option \<Rightarrow> jsnum" where
  "loop_similarityFloor options =
     (case options of None \<Rightarrow> round_double (6 / 10)
      | Some r \<Rightarrow> (case similarityFloor r of None \<Rightarrow> round_double (6 / 10) | Some f \<Rightarrow> f))"

text \<open>The comparison \<open>detectLoop\<close> makes on a pair of messages.\<close>

definition similar :: "jsnum \<Rightarrow> message \<Rightarrow> message \<Rightarrow> bool" where
  "similar fl a b =
     js_ge (cosineSimilarity (tokenise (content a)) (tokenise (content b))) fl"

lemma detectLoop_unfold:
  "detectLoop messages options =
     (let t = loop_threshold options;
          us = js_slice (user_messages messages) (- t - 1) None
      in if int (length us) < t then False
         else consecutive_all (similar (loop_similarityFloor options)) (js_slice us (- t) None))"
proof -
  have sims: "list_all (\<lambda>s. js_ge s fl) (similarities_loop recent 1 []) =
      consecutive_all (similar fl) recent" for fl recent
    unfolding similarities_loop_eq similar_def
    using list_all_consecutive[of "\<lambda>s. js_ge s fl"
        "\<lambda>a b. cosineSimilarity (tokenise (content a)) (tokenise (content b))" recent]
    by simp
  show ?thesis
    unfolding detectLoop_def Let_def sims loop_threshold_def loop_similarityFloor_def
      user_messages_def no_loop_options_def
    by (cases options) simp_all
qed

lemma last_n_last_n: "n \<le> m \<Longrightarrow> last_n n (last_n m xs) = last_n n xs"
  by (simp add: last_n_def) (rule arg_cong[where f = "\<lambda>k. drop k xs"], arith)

lemma length_last_n: "length (last_n n xs) = min n (length xs)"
  by (simp add: last_n_def)

lemma consecutive_all_short: "length xs \<le> 1 \<Longrightarrow> consecutive_all P xs"
  by (induction P xs rule: consecutive_all.induct) auto

lemma detectLoop_window:
  assumes "0 \<le> loop_threshold options"
  shows "detectLoop messages options =
     (if int (length (user_messages messages)) < loop_threshold options then False
      else consecutive_all (similar (loop_similarityFloor options))
             (last_n (nat (loop_threshold options)) (user_messages messages)))"
proof -
  define t where "t = loop_threshold options"
  define all where "all = user_messages messages"
  define us where "us = js_slice all (- t - 1) None"
  have t0: "0 \<le> t" using assms by (simp add: t_def)
  have us: "us = last_n (nat (t + 1)) all"
    using js_slice_last_n[of "t + 1" all] t0 by (simp add: us_def)
  have len: "int (length us) < t \<longleftrightarrow> int (length all) < t"
    using t0 by (auto simp: us length_last_n min_def)
  have win: "consecutive_all P (js_slice us (- t) None) = consecutive_all P (last_n (nat t) all)"
    if "\<not> int (length all) < t" for P
  proof (cases "t = 0")
    case True
    have "length us \<le> 1" by (simp add: us length_last_n True)
    then show ?thesis
      by (simp add: True js_slice_zero consecutive_all_short last_n_def)
  next
    case False
    then show ?thesis
      using t0 js_slice_last_n[of t us] by (simp add: us last_n_last_n)
  qed
  have unf: "detectLoop messages options =
      (if int (length us) < t then False
       else consecutive_all (similar (loop_similarityFloor options)) (js_slice us (- t) None))"
    by (simp only: detectLoop_unfold Let_def t_def all_def us_def)
  show ?thesis
  proof (cases "int (length all) < t")
    case True
    then show ?thesis
      by (simp only: unf len t_def[symmetric] all_def[symmetric] if_True)
  next
    case False
    then show ?thesis
      by (simp only: unf len win[OF False] t_def[symmetric] all_def[symmetric] if_False)
  qed
qed

subsection \<open>Conversations of the repository's tests\<close>

definition msg :: "role \<Rightarrow> string \<Rightarrow> real \<Rightarrow> message" where
  "msg r c t = \<lparr> role = r, content = c, timestamp = t \<rparr>"

lemma msg_sel [simp]: "role (msg r c t) = r" "content (msg r c t) = c" "timestamp (msg r c t) = t"
  by (simp_all add: msg_def)

definition logo_conversation :: "message list" where
  "logo_conversation =
     [msg User ''Can you make the logo bigger?'' 0,
      msg Assistant ''Here's the updated logo.'' 30000,
      msg User ''Can you make the logo a bit bigger?'' 60000,
      msg Assistant ''Here's another version.'' 90000,
      msg User ''Make the logo bigger please'' 120000]"

subsection \<open>Loop detection with a degenerate threshold\<close>

definition only_threshold :: "int \<Rightarrow> jsnum option \<Rightarrow> loop_options option" where
  "only_threshold t fl = Some \<lparr> threshold = Some t, similarityFloor = fl \<rparr>"

lemma loop_threshold_only [simp]: "loop_threshold (only_threshold t fl) = t"
  by (simp add: loop_threshold_def only_threshold_def)

lemma length_js_slice_neg: "0 < n \<Longrightarrow> length (js_slice xs (- n) None) = min (nat n) (length xs)"
  by (simp add: js_slice_neg)

text \<open>
  Claim C10. With \<open>threshold = 0\<close>, \<open>detectLoop\<close> returns true for every conversation, the
  empty one included; with \<open>threshold = 1\<close> it returns true whenever the conversation has a
  user message. The window then has no consecutive pair, so neither the contents nor
  \<open>similarityFloor\<close> matter.
\<close>

theorem detectLoop_degenerate_threshold:
  "detectLoop messages (only_threshold 0 fl) \<and>
   (user_messages messages \<noteq> [] \<longrightarrow> detectLoop messages (only_threshold 1 fl))"
proof
  have "length (js_slice (user_messages messages) (- 1) None) \<le> 1"
    using length_js_slice_neg[of 1 "user_messages messages"] by simp
  then show "detectLoop messages (only_threshold 0 fl)"
    by (simp add: detectLoop_unfold js_slice_zero consecutive_all_short)
next
  show "user_messages messages \<noteq> [] \<longrightarrow> detectLoop messages (only_threshold 1 fl)"
  proof
    assume ne: "user_messages messages \<noteq> []"
    define us where "us = js_slice (user_messages messages) (- 2) None"
    have "length us = min 2 (length (user_messages messages))"
      using length_js_slice_neg[of 2 "user_messages messages"] by (simp add: us_def)
    then have len: "\<not> int (length us) < 1"
      using ne by (cases "user_messages messages") auto
    have "length (js_slice us (- 1) None) \<le> 1"
      using length_js_slice_neg[of 1 us] by simp
    then have "consecutive_all (similar (loop_similarityFloor (only_threshold 1 fl)))
        (js_slice us (- 1) None)"
      by (rule consecutive_all_short)
    then show "detectLoop messages (only_threshold 1 fl)"
      using len by (simp add: detectLoop_unfold us_def)
  qed
qed

theorem detectLoop_degenerate_threshold_witness:
  "detectLoop [] (only_threshold 0 None) \<and>
   user_messages [msg User ''anything'' 0] \<noteq> [] \<and>
   detectLoop [msg User ''anything'' 0] (only_threshold 1 (Some (Fin 1)))"
  using detectLoop_degenerate_threshold[of "[]" None]
    detectLoop_degenerate_threshold[of "[msg User ''anything'' 0]" "Some (Fin 1)"]
  by (simp add: user_messages_def)

subsection \<open>Assistant messages\<close>

text \<open>
  Claim C9. Two conversations with the same user messages (contents and timestamps, in
  the same order) get the same answer from \<open>detectLoop\<close>, \<open>detectVelocityCollapse\<close> and
  \<open>detectScopeCreep\<close>, whatever the options: assistant messages have no influence.
\<close>

theorem user_detectors_ignore_assistant:
  assumes "user_messages m1 = user_messages m2"
  shows "detectLoop m1 lo = detectLoop m2 lo \<and>
         detectVelocityCollapse m1 vo = detectVelocityCollapse m2 vo \<and>
         detectScopeCreep m1 so = detectScopeCreep m2 so"
proof -
  have eq: "filter (\<lambda>m. role m = User) m1 = filter (\<lambda>m. role m = User) m2"
    using assms by (simp add: user_messages_def)
  show ?thesis
    unfolding detectLoop_def detectVelocityCollapse_def detectScopeCreep_def eq
    by (rule conjI refl)+
qed

theorem user_detectors_ignore_assistant_witness:
  "user_messages logo_conversation = user_messages (user_messages logo_conversation) \<and>
   logo_conversation \<noteq> user_messages logo_conversation \<and>
   detectLoop logo_conversation None = detectLoop (user_messages logo_conversation) None \<and>
   detectVelocityCollapse logo_conversation None =
     detectVelocityCollapse (user_messages logo_conversation) None \<and>
   detectScopeCreep logo_conversation None =
     detectScopeCreep (user_messages logo_conversation) None"
proof -
  have h: "user_messages logo_conversation = user_messages (user_messages logo_conversation)"
    by (simp add: user_messages_def)
  have "length logo_conversation \<noteq> length (user_messages logo_conversation)"
    by (simp add: user_messages_def logo_conversation_def)
  then have "logo_conversation \<noteq> user_messages logo_conversation"
    by (rule contrapos_nn) simp
  then show ?thesis
    using user_detectors_ignore_assistant[OF h, of None None None] h by simp
qed

section \<open>Cosine similarity\<close>

text \<open>The similarity of the specification (4.2): term frequencies, the dot product of the
  two frequency vectors over the union of the terms, the squared Euclidean norms, and
  the quotient of the dot product by the product of the norms, which is 0 when that
  product is 0. The sums are sums of natural numbers; the square roots, their product
  and the quotient are double operations.\<close>

definition dot_product :: "string list \<Rightarrow> string list \<Rightarrow> nat" where
  "dot_product A B = (\<Sum>k \<in> set A \<union> set B. count_list A k * count_list B k)"

definition sq_norm :: "string list \<Rightarrow> nat" where
  "sq_norm A = (\<Sum>k \<in> set A. (count_list A k)\<^sup>2)"

definition quotient_score :: "jsnum \<Rightarrow> jsnum \<Rightarrow> jsnum \<Rightarrow> jsnum" where
  "quotient_score d a b =
     (let denom = js_mul (js_sqrt a) (js_sqrt b)
      in if js_eq denom (Fin 0) then Fin 0 else js_div d denom)"

definition cosine_score :: "string list \<Rightarrow> string list \<Rightarrow> jsnum" where
  "cosine_score A B =
     quotient_score (num_of_nat (dot_product A B)) (num_of_nat (sq_norm A))
       (num_of_nat (sq_norm B))"

text \<open>Token sequences on which the frequency object is a map: no token is the name of an
  inherited property, and the counts stay below 2 to the power 53, where double
  addition is exact.\<close>

definition plain :: "string list \<Rightarrow> bool" where
  "plain ts = (length ts \<le> 2 ^ 26 \<and> (\<forall>t \<in> set ts. inherited t = Undefined))"

lemma map_of_update_prop: "map_of (update_prop k v m) = (map_of m)(k \<mapsto> v)"
  by (induction m) (auto simp: fun_eq_iff)

lemma keys_update_prop:
  "map fst (update_prop k v m) =
     (if k \<in> set (map fst m) then map fst m else map fst m @ [k])"
  by (induction m) (fastforce simp: image_iff)+

lemma inherited_proto: "inherited t = Undefined \<Longrightarrow> t \<noteq> ''__proto__''"
  by (auto simp: inherited_def)

lemma js_add_nat:
  "a + b \<le> 2 ^ 53 \<Longrightarrow> js_add (Fin (real a)) (Fin (real b)) = Fin (real (a + b))"
  using round_double_nat[of "a + b"] by simp

lemma js_mul_nat:
  "a * b \<le> 2 ^ 53 \<Longrightarrow> js_mul (Fin (real a)) (Fin (real b)) = Fin (real (a * b))"
  using round_double_nat[of "a * b"] by simp

definition counted :: "jsobject \<Rightarrow> (string \<Rightarrow> nat) \<Rightarrow> bool" where
  "counted m c =
     (\<forall>k. map_of m k = (if c k = 0 then None else Some (Num (Fin (real (c k))))))"

lemma counted_step:
  assumes m: "counted m c" and t: "inherited t = Undefined" and le: "c t + 1 \<le> 2 ^ 53"
  shows "counted (set_prop m t (plus_one (js_or (get_prop m t) (Num (Fin 0)))))
           (c(t := c t + 1))"
proof -
  have "plus_one (js_or (get_prop m t) (Num (Fin 0))) = Num (Fin (real (c t + 1)))"
  proof (cases "c t = 0")
    case True
    then have "get_prop m t = Undefined"
      using m t by (simp add: counted_def get_prop_def)
    then show ?thesis
      using True js_add_nat[of 0 1] by (simp add: js_or_def)
  next
    case False
    then have "get_prop m t = Num (Fin (real (c t)))"
      using m by (simp add: counted_def get_prop_def)
    then show ?thesis
      using False js_add_nat[OF le] by (simp add: js_or_def)
  qed
  then show ?thesis
    using m inherited_proto[OF t]
    by (simp add: counted_def set_prop_def map_of_update_prop)
qed

lemma counted_freq_loop:
  assumes "counted m c" "\<forall>t \<in> set ts. inherited t = Undefined"
    "\<forall>k. c k + length ts \<le> 2 ^ 53"
  shows "counted (freq_loop m ts) (\<lambda>k. c k + count_list ts k)"
  using assms
proof (induction ts arbitrary: m c)
  case Nil
  then show ?case by simp
next
  case (Cons t ts)
  have le: "c t + 1 \<le> 2 ^ 53"
    using Cons.prems(3)[rule_format, of t] by simp
  have step: "counted (set_prop m t (plus_one (js_or (get_prop m t) (Num (Fin 0)))))
      (c(t := c t + 1))"
    using Cons.prems(1) _ le by (rule counted_step) (use Cons.prems(2) in simp)
  have bound: "\<forall>k. (c(t := c t + 1)) k + length ts \<le> 2 ^ 53"
  proof
    fix k
    show "(c(t := c t + 1)) k + length ts \<le> 2 ^ 53"
      using Cons.prems(3)[rule_format, of k] by (cases "k = t") simp_all
  qed
  have "counted (freq_loop (set_prop m t (plus_one (js_or (get_prop m t) (Num (Fin 0))))) ts)
      (\<lambda>k. (c(t := c t + 1)) k + count_list ts k)"
    using step _ bound by (rule Cons.IH) (use Cons.prems(2) in simp)
  moreover have "(\<lambda>k. (c(t := c t + 1)) k + count_list ts k) =
      (\<lambda>k. c k + count_list (t # ts) k)"
    by (auto simp: fun_eq_iff)
  ultimately show ?case by simp
qed

lemma keys_freq_loop:
  assumes "\<forall>t \<in> set ts. inherited t = Undefined"
  shows "set (object_keys (freq_loop m ts)) = set (object_keys m) \<union> set ts"
  using assms
proof (induction ts arbitrary: m)
  case Nil
  then show ?case by simp
next
  case (Cons t ts)
  have "t \<noteq> ''__proto__''" using Cons.prems by (simp add: inherited_proto)
  then have "set (object_keys (set_prop m t v)) = insert t (set (object_keys m))" for v
    by (auto simp: set_prop_def object_keys_def keys_update_prop)
  then show ?case using Cons by simp
qed

lemma counted_empty: "counted [] (\<lambda>k. 0)"
  by (simp add: counted_def)

lemma freq_value:
  assumes "\<forall>t \<in> set A. inherited t = Undefined" "length A \<le> 2 ^ 53"
    and k: "inherited k = Undefined"
  shows "to_number (js_or (get_prop (freq A) k) (Num (Fin 0))) = Fin (real (count_list A k))"
proof -
  have "counted (freq_loop [] A) (\<lambda>k. 0 + count_list A k)"
    using counted_empty assms(1) by (rule counted_freq_loop) (use assms(2) in simp)
  then have c: "counted (freq A) (count_list A)" by (simp add: freq_def)
  show ?thesis
  proof (cases "count_list A k = 0")
    case True
    then have "get_prop (freq A) k = Undefined"
      using c k by (simp add: counted_def get_prop_def)
    then show ?thesis using True by (simp add: js_or_def)
  next
    case False
    then have "get_prop (freq A) k = Num (Fin (real (count_list A k)))"
      using c by (simp add: counted_def get_prop_def)
    then show ?thesis using False by (simp add: js_or_def)
  qed
qed

lemma keys_freq:
  "\<forall>t \<in> set A. inherited t = Undefined \<Longrightarrow> set (object_keys (freq A)) = set A"
  using keys_freq_loop[of A "[]"] by (simp add: freq_def object_keys_def)

lemma new_Set_set: "set (new_Set acc ks) = set acc \<union> set ks"
  by (induction ks arbitrary: acc) auto

lemma new_Set_distinct: "distinct acc \<Longrightarrow> distinct (new_Set acc ks)"
  by (induction ks arbitrary: acc) auto

lemma key_loop_nat:
  assumes "\<forall>k \<in> set keys. to_number (js_or (get_prop a k) (Num (Fin 0))) = Fin (real (f k))"
    and "\<forall>k \<in> set keys. to_number (js_or (get_prop b k) (Num (Fin 0))) = Fin (real (g k))"
    and "d0 + sum_list (map (\<lambda>k. f k * g k) keys) \<le> 2 ^ 53"
    and "a0 + sum_list (map (\<lambda>k. f k * f k) keys) \<le> 2 ^ 53"
    and "b0 + sum_list (map (\<lambda>k. g k * g k) keys) \<le> 2 ^ 53"
  shows "key_loop a b \<lparr> dot = Fin (real d0), magA = Fin (real a0), magB = Fin (real b0) \<rparr> keys =
     \<lparr> dot = Fin (real (d0 + sum_list (map (\<lambda>k. f k * g k) keys))),
       magA = Fin (real (a0 + sum_list (map (\<lambda>k. f k * f k) keys))),
       magB = Fin (real (b0 + sum_list (map (\<lambda>k. g k * g k) keys))) \<rparr>"
  using assms
proof (induction keys arbitrary: d0 a0 b0)
  case Nil
  then show ?case by simp
next
  case (Cons k keys)
  have va: "to_number (js_or (get_prop a k) (Num (Fin 0))) = Fin (real (f k))"
    and vb: "to_number (js_or (get_prop b k) (Num (Fin 0))) = Fin (real (g k))"
    using Cons.prems(1,2) by simp_all
  have d: "js_add (Fin (real d0)) (js_mul (Fin (real (f k))) (Fin (real (g k)))) =
      Fin (real (d0 + f k * g k))"
    using Cons.prems(3) by (subst js_mul_nat, simp, subst js_add_nat, simp_all)
  have a: "js_add (Fin (real a0)) (js_mul (Fin (real (f k))) (Fin (real (f k)))) =
      Fin (real (a0 + f k * f k))"
    using Cons.prems(4) by (subst js_mul_nat, simp, subst js_add_nat, simp_all)
  have b: "js_add (Fin (real b0)) (js_mul (Fin (real (g k))) (Fin (real (g k)))) =
      Fin (real (b0 + g k * g k))"
    using Cons.prems(5) by (subst js_mul_nat, simp, subst js_add_nat, simp_all)
  have "key_loop a b \<lparr> dot = Fin (real d0), magA = Fin (real a0), magB = Fin (real b0) \<rparr>
      (k # keys) =
    key_loop a b \<lparr> dot = Fin (real (d0 + f k * g k)), magA = Fin (real (a0 + f k * f k)),
      magB = Fin (real (b0 + g k * g k)) \<rparr> keys"
    by (simp only: key_loop.simps Let_def va vb d a b totals.simps)
  also have "\<dots> =
     \<lparr> dot = Fin (real (d0 + f k * g k + sum_list (map (\<lambda>k. f k * g k) keys))),
       magA = Fin (real (a0 + f k * f k + sum_list (map (\<lambda>k. f k * f k) keys))),
       magB = Fin (real (b0 + g k * g k + sum_list (map (\<lambda>k. g k * g k) keys))) \<rparr>"
    using Cons.prems by (intro Cons.IH) (simp_all add: add.assoc)
  finally show ?case by (simp add: add.assoc)
qed

lemma sum_count_le_length:
  assumes "distinct keys"
  shows "sum_list (map (count_list A) keys) \<le> length A"
proof -
  have "sum_list (map (count_list A) keys) = sum (count_list A) (set keys)"
    using assms by (rule sum_list_distinct_conv_sum_set)
  also have "\<dots> \<le> sum (count_list A) (set keys \<union> set A)"
    by (rule sum_mono2) auto
  also have "\<dots> = length A"
    by (rule sum_count_set) auto
  finally show ?thesis .
qed

lemma sum_products_le:
  assumes "distinct keys"
  shows "sum_list (map (\<lambda>k. count_list A k * count_list B k) keys) \<le> length A * length B"
proof -
  have "sum_list (map (\<lambda>k. count_list A k * count_list B k) keys) \<le>
      sum_list (map (\<lambda>k. count_list A k * length B) keys)"
    by (rule sum_list_mono) (simp add: count_le_length)
  also have "\<dots> = sum_list (map (count_list A) keys) * length B"
    by (simp add: sum_list_mult_const)
  also have "\<dots> \<le> length A * length B"
    using sum_count_le_length[OF assms, of A] by (rule mult_le_mono1)
  finally show ?thesis .
qed

lemma small_product:
  assumes "m \<le> 2 ^ 26" "n \<le> 2 ^ 26"
  shows "m * n \<le> (2 ^ 53 :: nat)"
proof -
  have "m * n \<le> 2 ^ 26 * 2 ^ 26" using assms by (rule mult_le_mono)
  also have "\<dots> \<le> (2 ^ 53 :: nat)" by simp
  finally show ?thesis .
qed

lemma cosineSimilarity_totals:
  "cosineSimilarity A B =
     (let s = key_loop (freq A) (freq B) \<lparr> dot = Fin 0, magA = Fin 0, magB = Fin 0 \<rparr>
                (new_Set [] (object_keys (freq A) @ object_keys (freq B)))
      in quotient_score (dot s) (magA s) (magB s))"
  by (simp add: cosineSimilarity_def quotient_score_def Let_def)

lemma cosineSimilarity_score:
  assumes A: "plain A" and B: "plain B"
  shows "cosineSimilarity A B = cosine_score A B"
proof -
  define keys where "keys = new_Set [] (object_keys (freq A) @ object_keys (freq B))"
  have oA: "\<forall>t \<in> set A. inherited t = Undefined" and lA: "length A \<le> 2 ^ 26"
    and oB: "\<forall>t \<in> set B. inherited t = Undefined" and lB: "length B \<le> 2 ^ 26"
    using A B by (simp_all add: plain_def)
  have lA53: "length A \<le> 2 ^ 53" using lA by (rule order_trans) simp
  have lB53: "length B \<le> 2 ^ 53" using lB by (rule order_trans) simp
  have set_keys: "set keys = set A \<union> set B"
    by (simp add: keys_def new_Set_set keys_freq[OF oA] keys_freq[OF oB])
  have dist: "distinct keys"
    by (simp add: keys_def new_Set_distinct)
  have va: "\<forall>k \<in> set keys. to_number (js_or (get_prop (freq A) k) (Num (Fin 0))) =
      Fin (real (count_list A k))"
    using oA oB by (auto simp: set_keys intro!: freq_value[OF oA lA53])
  have vb: "\<forall>k \<in> set keys. to_number (js_or (get_prop (freq B) k) (Num (Fin 0))) =
      Fin (real (count_list B k))"
    using oA oB by (auto simp: set_keys intro!: freq_value[OF oB lB53])
  have bd: "0 + sum_list (map (\<lambda>k. count_list A k * count_list B k) keys) \<le> 2 ^ 53"
    using sum_products_le[OF dist, of A B] small_product[OF lA lB] by simp
  have ba: "0 + sum_list (map (\<lambda>k. count_list A k * count_list A k) keys) \<le> 2 ^ 53"
    using sum_products_le[OF dist, of A A] small_product[OF lA lA] by simp
  have bb: "0 + sum_list (map (\<lambda>k. count_list B k * count_list B k) keys) \<le> 2 ^ 53"
    using sum_products_le[OF dist, of B B] small_product[OF lB lB] by simp
  have loop: "key_loop (freq A) (freq B) \<lparr> dot = Fin 0, magA = Fin 0, magB = Fin 0 \<rparr> keys =
     \<lparr> dot = Fin (real (sum_list (map (\<lambda>k. count_list A k * count_list B k) keys))),
       magA = Fin (real (sum_list (map (\<lambda>k. count_list A k * count_list A k) keys))),
       magB = Fin (real (sum_list (map (\<lambda>k. count_list B k * count_list B k) keys))) \<rparr>"
    using key_loop_nat[OF va vb bd ba bb] by simp
  have d: "sum_list (map (\<lambda>k. count_list A k * count_list B k) keys) = dot_product A B"
    by (simp add: sum_list_distinct_conv_sum_set[OF dist] set_keys dot_product_def)
  have a: "sum_list (map (\<lambda>k. count_list A k * count_list A k) keys) = sq_norm A"
  proof -
    have "sum_list (map (\<lambda>k. count_list A k * count_list A k) keys) =
        (\<Sum>k \<in> set A \<union> set B. count_list A k * count_list A k)"
      by (simp add: sum_list_distinct_conv_sum_set[OF dist] set_keys)
    also have "\<dots> = (\<Sum>k \<in> set A. count_list A k * count_list A k)"
      by (rule sum.mono_neutral_right) (auto simp: count_list_0_iff)
    finally show ?thesis by (simp add: sq_norm_def power2_eq_square)
  qed
  have b: "sum_list (map (\<lambda>k. count_list B k * count_list B k) keys) = sq_norm B"
  proof -
    have "sum_list (map (\<lambda>k. count_list B k * count_list B k) keys) =
        (\<Sum>k \<in> set A \<union> set B. count_list B k * count_list B k)"
      by (simp add: sum_list_distinct_conv_sum_set[OF dist] set_keys)
    also have "\<dots> = (\<Sum>k \<in> set B. count_list B k * count_list B k)"
      by (rule sum.mono_neutral_right) (auto simp: count_list_0_iff)
    finally show ?thesis by (simp add: sq_norm_def power2_eq_square)
  qed
  show ?thesis
    unfolding cosineSimilarity_totals keys_def[symmetric] loop Let_def d a b
    by (simp add: cosine_score_def num_of_nat_def)
qed

lemma sqrt_range:
  assumes "1 \<le> a" "a \<le> 10 ^ 6"
  shows "1 \<le> sqrt a" "sqrt a \<le> 1000"
proof -
  show "1 \<le> sqrt a" using assms(1) by simp
  have "sqrt a \<le> sqrt (1000\<^sup>2)" using assms(2) by (simp only: real_sqrt_le_iff) simp
  then show "sqrt a \<le> 1000" by simp
qed

lemma round_double_range:
  assumes "1 / 10000000 \<le> x" "x \<le> 2000000"
  shows "\<exists>y. round_double x = Fin y \<and> 999 / 1000 * x \<le> y \<and> y \<le> 1001 / 1000 * x"
proof (rule round_double_crude)
  have "(1::real) / 10 ^ 9 \<le> 1 / 10000000" by simp
  then show "1 / 10 ^ 9 \<le> x" using assms(1) by (rule order_trans)
  have "(2000000::real) \<le> 10 ^ 9" by simp
  then show "x \<le> 10 ^ 9" using assms(2) by (rule order_trans[rotated])
qed

lemma quotient_score_ge:
  assumes a: "1 \<le> a" "a \<le> 10 ^ 6" and b: "1 \<le> b" "b \<le> 10 ^ 6"
    and d: "1 \<le> d" "d \<le> 10 ^ 6" and f: "1 / 1000 \<le> f" "f \<le> 1"
    and margin: "(101 / 100 * f)\<^sup>2 * (a * b) \<le> d\<^sup>2"
  shows "js_ge (quotient_score (Fin d) (Fin a) (Fin b)) (round_double f)"
proof -
  define s where "s = sqrt a * sqrt b"
  note ra = sqrt_range[OF a] and rb = sqrt_range[OF b]
  have s1: "1 \<le> s"
    unfolding s_def using mult_mono[of 1 "sqrt a" 1 "sqrt b"] ra(1) rb(1) by simp
  have s2: "s \<le> 1000000"
    unfolding s_def using mult_mono[of "sqrt a" 1000 "sqrt b" 1000] ra rb by simp
  have ra9: "1 / 10000000 \<le> sqrt a" "sqrt a \<le> 2000000" using ra by linarith+
  have rb9: "1 / 10000000 \<le> sqrt b" "sqrt b \<le> 2000000" using rb by linarith+
  obtain ya where ya: "round_double (sqrt a) = Fin ya"
      "999 / 1000 * sqrt a \<le> ya" "ya \<le> 1001 / 1000 * sqrt a"
    using round_double_range[OF ra9] by blast
  obtain yb where yb: "round_double (sqrt b) = Fin yb"
      "999 / 1000 * sqrt b \<le> yb" "yb \<le> 1001 / 1000 * sqrt b"
    using round_double_range[OF rb9] by blast
  have ya0: "0 \<le> ya" using ya(2) ra(1) by linarith
  have yb0: "0 \<le> yb" using yb(2) rb(1) by linarith
  have "(999 / 1000 * sqrt a) * (999 / 1000 * sqrt b) \<le> ya * yb"
    using ya(2) yb(2) ra(1) rb(1) by (intro mult_mono) linarith+
  moreover have "(999 / 1000 * sqrt a) * (999 / 1000 * sqrt b) = 998001 / 1000000 * s"
    by (simp add: s_def)
  ultimately have lo': "998 / 1000 * s \<le> ya * yb" using s1 by linarith
  have "ya * yb \<le> (1001 / 1000 * sqrt a) * (1001 / 1000 * sqrt b)"
    using ya(3) yb(3) ya0 yb0 ra(1) rb(1) by (intro mult_mono) linarith+
  moreover have "(1001 / 1000 * sqrt a) * (1001 / 1000 * sqrt b) = 1002001 / 1000000 * s"
    by (simp add: s_def)
  ultimately have hi': "ya * yb \<le> 1003 / 1000 * s" using s1 by linarith
  have r9: "1 / 10000000 \<le> ya * yb" "ya * yb \<le> 2000000"
    using lo' hi' s1 s2 by linarith+
  obtain p where p: "round_double (ya * yb) = Fin p"
      "999 / 1000 * (ya * yb) \<le> p" "p \<le> 1001 / 1000 * (ya * yb)"
    using round_double_range[OF r9] by blast
  have p_lo: "99 / 100 \<le> p" using p(2) lo' s1 by linarith
  have p_hi: "p \<le> 1005 / 1000 * s" using p(3) hi' s1 by linarith
  have d6: "d \<le> 1000000" using d(2) by simp
  have p0: "0 < p" using p_lo by linarith
  have "1 / 10000000 * p \<le> d" using p_hi s2 d(1) by linarith
  then have q_lo: "1 / 10000000 \<le> d / p"
    using p0 by (simp only: pos_le_divide_eq)
  have "d \<le> 2000000 * p" using p_lo d6 by linarith
  then have q_hi: "d / p \<le> 2000000"
    using p0 by (simp only: pos_divide_le_eq)
  obtain q where q: "round_double (d / p) = Fin q" "999 / 1000 * (d / p) \<le> q"
    using round_double_range[OF q_lo q_hi] by blast
  have f9: "1 / 10000000 \<le> f" "f \<le> 2000000" using f by linarith+
  obtain g where g: "round_double f = Fin g" "g \<le> 1001 / 1000 * f"
    using round_double_range[OF f9] by blast
  have f0: "0 \<le> f" using f(1) by simp
  have "(101 / 100 * f * s)\<^sup>2 = (101 / 100 * f)\<^sup>2 * ((sqrt a)\<^sup>2 * (sqrt b)\<^sup>2)"
    unfolding s_def by (simp only: power_mult_distrib)
  also have "\<dots> = (101 / 100 * f)\<^sup>2 * (a * b)"
    using a(1) b(1) by simp
  finally have "(101 / 100 * f * s)\<^sup>2 \<le> d\<^sup>2" using margin by simp
  moreover have "0 \<le> d" using d(1) by linarith
  ultimately have m: "101 / 100 * f * s \<le> d"
    by (rule power2_le_imp_le)
  have fs0: "0 \<le> f * s" using f0 s1 by simp
  have fp: "f * p \<le> f * (1005 / 1000 * s)"
    using p_hi f0 by (rule mult_left_mono)
  have fp': "f * (1005 / 1000 * s) = 1005 / 1000 * (f * s)" by simp
  have m': "101 / 100 * f * s = 101 / 100 * (f * s)" by simp
  have "1001 / 1000 * (f * p) \<le> 999 / 1000 * d"
    using fp m fs0 unfolding fp' m' by linarith
  then have "1001 / 1000 * f * p \<le> 999 / 1000 * d" by simp
  then have "1001 / 1000 * f \<le> 999 / 1000 * d / p"
    using p0 by (simp only: pos_le_divide_eq)
  then have gq: "g \<le> q" using g(2) q(2) by simp
  have "quotient_score (Fin d) (Fin a) (Fin b) = Fin q"
    using a(1) b(1) p0 by (simp add: quotient_score_def ya(1) yb(1) p(1) q(1))
  then show ?thesis
    using gq by (simp add: g(1) js_ge_def js_le_def less_eq_real_def)
qed

text \<open>Evaluation on the test conversations.\<close>

lemmas eval_defs =
  freq_def set_prop_def get_prop_def inherited_def js_or_def object_keys_def builtin_names_def

lemma tok_logo1: "tokenise ''Can you make the logo bigger?'' =
    [''can'', ''you'', ''make'', ''the'', ''logo'', ''bigger'']"
  by code_simp

lemma tok_logo2: "tokenise ''Can you make the logo a bit bigger?'' =
    [''can'', ''you'', ''make'', ''the'', ''logo'', ''a'', ''bit'', ''bigger'']"
  by code_simp

lemma tok_logo3: "tokenise ''Make the logo bigger please'' =
    [''make'', ''the'', ''logo'', ''bigger'', ''please'']"
  by code_simp

lemma cos_logo12:
  "cosineSimilarity [''can'', ''you'', ''make'', ''the'', ''logo'', ''bigger'']
     [''can'', ''you'', ''make'', ''the'', ''logo'', ''a'', ''bit'', ''bigger''] =
   quotient_score (Fin 6) (Fin 6) (Fin 8)"
  unfolding cosineSimilarity_totals by (simp add: eval_defs round_double_Nats)

lemma cos_logo23:
  "cosineSimilarity [''can'', ''you'', ''make'', ''the'', ''logo'', ''a'', ''bit'', ''bigger'']
     [''make'', ''the'', ''logo'', ''bigger'', ''please''] =
   quotient_score (Fin 4) (Fin 8) (Fin 5)"
  unfolding cosineSimilarity_totals by (simp add: eval_defs round_double_Nats)

lemma similar_logo12:
  "similar (round_double (6 / 10)) (msg User ''Can you make the logo bigger?'' 0)
      (msg User ''Can you make the logo a bit bigger?'' 60000)"
  unfolding similar_def msg_sel tok_logo1 tok_logo2 cos_logo12
  by (rule quotient_score_ge) (simp_all add: power2_eq_square)

lemma similar_logo23:
  "similar (round_double (6 / 10)) (msg User ''Can you make the logo a bit bigger?'' 60000)
      (msg User ''Make the logo bigger please'' 120000)"
  unfolding similar_def msg_sel tok_logo2 tok_logo3 cos_logo23
  by (rule quotient_score_ge) (simp_all add: power2_eq_square)

text \<open>A token is made of lowercase letters, digits and underscores, so the only
  inherited names a token can be are \<^verbatim>\<open>constructor\<close> and \<^verbatim>\<open>__proto__\<close>: every other
  one has a capital letter.\<close>

definition no_upper :: "string \<Rightarrow> bool" where
  "no_upper t = (\<forall>c \<in> set t. \<not> (65 \<le> (of_char c :: nat) \<and> (of_char c :: nat) \<le> 90))"

lemma lower_unit_no_upper:
  "\<not> (65 \<le> (of_char (lower_unit c) :: nat) \<and> (of_char (lower_unit c) :: nat) \<le> 90)"
proof (cases "is_upper_unit c")
  case True
  then have "(of_char c :: nat) + 32 < 256"
    by (auto simp: is_upper_unit_def Let_def)
  then have "(of_char (char_of ((of_char c :: nat) + 32)) :: nat) = of_char c + 32"
    by simp
  moreover have "65 \<le> (of_char c :: nat)"
    using True by (auto simp: is_upper_unit_def Let_def)
  ultimately show ?thesis using True by (simp add: lower_unit_def)
next
  case False
  then show ?thesis by (auto simp: lower_unit_def is_upper_unit_def Let_def)
qed

lemma split_ws_chars: "p \<in> set (split_ws cur s) \<Longrightarrow> set p \<subseteq> set cur \<union> set s"
proof (induction cur s arbitrary: p rule: split_ws.induct)
  case (1 cur)
  then show ?case by simp
next
  case (2 cur c cs)
  show ?case
  proof (cases "is_space c")
    case True
    then have "p = cur \<or> p \<in> set (split_ws [] (dropWhile is_space cs))"
      using "2.prems" by simp
    then show ?thesis
    proof
      assume "p = cur" then show ?thesis by auto
    next
      assume "p \<in> set (split_ws [] (dropWhile is_space cs))"
      then have "set p \<subseteq> set [] \<union> set (dropWhile is_space cs)"
        using "2.IH"(1)[OF True] by simp
      then show ?thesis using set_dropWhileD[of _ is_space cs] by auto
    qed
  next
    case False
    then have "p \<in> set (split_ws (cur @ [c]) cs)" using "2.prems" by simp
    then have "set p \<subseteq> set (cur @ [c]) \<union> set cs" using "2.IH"(2)[OF False] by simp
    then show ?thesis by auto
  qed
qed

lemma tokenise_no_upper: "t \<in> set (tokenise s) \<Longrightarrow> no_upper t"
proof -
  assume "t \<in> set (tokenise s)"
  then have "t \<in> set (split_ws [] (filter (\<lambda>c. is_word c \<or> is_space c) (toLowerCase s)))"
    by (simp add: tokenise_def)
  then have "set t \<subseteq> set (toLowerCase s)"
    using split_ws_chars by fastforce
  then have "set t \<subseteq> lower_unit ` set s" by (simp add: toLowerCase_def)
  then show ?thesis
    unfolding no_upper_def using lower_unit_no_upper by blast
qed

lemma inherited_no_upper:
  assumes "no_upper t" "t \<noteq> ''constructor''" "t \<noteq> ''__proto__''"
  shows "inherited t = Undefined"
proof -
  have "t \<notin> set builtin_names"
    using assms(1,2) by (auto simp: builtin_names_def no_upper_def)
  then show ?thesis using assms(2,3) by (simp add: inherited_def)
qed

definition ordinary_message :: "message \<Rightarrow> bool" where
  "ordinary_message m =
     (let tokens = tokenise (content m)
      in length tokens \<le> 2 ^ 26 \<and> ''constructor'' \<notin> set tokens \<and> ''__proto__'' \<notin> set tokens)"

lemma ordinary_message_plain: "ordinary_message m \<Longrightarrow> plain (tokenise (content m))"
  unfolding ordinary_message_def plain_def Let_def
  by (metis inherited_no_upper tokenise_no_upper)

section \<open>Loop detection\<close>

text \<open>The claim in the words of the specification: false with fewer than \<open>threshold\<close> user
  messages, otherwise true exactly when every consecutive pair among the last
  \<open>threshold\<close> user messages has a similarity that meets or exceeds the floor.\<close>

definition loop_claim :: "message list \<Rightarrow> loop_options option \<Rightarrow> bool" where
  "loop_claim messages options =
     (let threshold = loop_threshold options; us = user_messages messages
      in if int (length us) < threshold then False
         else consecutive_all
                (\<lambda>a b. js_ge (cosine_score (tokenise (content a)) (tokenise (content b)))
                         (loop_similarityFloor options))
                (last_n (nat threshold) us))"

lemma consecutive_all_cong:
  assumes "\<And>a b. a \<in> set xs \<Longrightarrow> b \<in> set xs \<Longrightarrow> P a b = Q a b"
  shows "consecutive_all P xs = consecutive_all Q xs"
  using assms by (induction P xs rule: consecutive_all.induct) auto


text \<open>With \<open>threshold = -1\<close> the code takes all the user messages but the first as its
  window; on three unrelated messages it returns false, where the claim, whose window
  of the last \<open>-1\<close> messages has no pair, gives true.\<close>

definition xyz_conversation :: "message list" where
  "xyz_conversation = [msg User ''x'' 1, msg User ''y'' 2, msg User ''z'' 3]"

lemma default_floor_positive: "\<exists>f. round_double (6 / 10) = Fin f \<and> 0 < f"
proof -
  obtain f where "round_double (6 / 10) = Fin f" "999 / 1000 * (6 / 10) \<le> f"
    using round_double_range[of "6 / 10"] by auto
  then show ?thesis by (intro exI[of _ f]) simp
qed


lemma detectLoop_three:
  assumes "user_messages messages = [m1, m2, m3]"
  shows "detectLoop messages None =
     (similar (round_double (6 / 10)) m1 m2 \<and> similar (round_double (6 / 10)) m2 m3)"
proof -
  have "js_slice [m1, m2, m3] (- 4) None = [m1, m2, m3]"
    using js_slice_neg[of 4 "[m1, m2, m3]"] by simp
  moreover have "js_slice [m1, m2, m3] (- 3) None = [m1, m2, m3]"
    using js_slice_neg[of 3 "[m1, m2, m3]"] by simp
  ultimately show ?thesis
    by (simp add: detectLoop_unfold assms loop_threshold_def loop_similarityFloor_def)
qed

lemma user_messages_logo:
  "user_messages logo_conversation =
      [msg User ''Can you make the logo bigger?'' 0,
       msg User ''Can you make the logo a bit bigger?'' 60000,
       msg User ''Make the logo bigger please'' 120000]"
  by (simp add: user_messages_def logo_conversation_def)

lemma detectLoop_logo: "detectLoop logo_conversation None"
  by (simp only: detectLoop_three[OF user_messages_logo] similar_logo12 similar_logo23 simp_thms)


section \<open>Saturation\<close>

definition sat_threshold :: "saturation_options option \<Rightarrow> int" where
  "sat_threshold options =
     (case options of None \<Rightarrow> 3
      | Some r \<Rightarrow> (case assistantResponseThreshold r of None \<Rightarrow> 3 | Some t \<Rightarrow> t))"

definition sat_minLength :: "saturation_options option \<Rightarrow> jsnum" where
  "sat_minLength options =
     (case options of None \<Rightarrow> Fin 200
      | Some r \<Rightarrow> (case minAssistantLength r of None \<Rightarrow> Fin 200 | Some n \<Rightarrow> n))"

definition sat_patterns :: "saturation_options option \<Rightarrow> string list" where
  "sat_patterns options =
     (case options of None \<Rightarrow> default_requestPatterns
      | Some r \<Rightarrow> (case requestPatterns r of None \<Rightarrow> default_requestPatterns | Some ps \<Rightarrow> ps))"

definition substantive :: "jsnum \<Rightarrow> message list \<Rightarrow> message list" where
  "substantive minLength messages =
     filter (\<lambda>m. role m = Assistant \<and> js_ge (num_of_nat (length (content m))) minLength) messages"

definition requests_more :: "string list \<Rightarrow> message \<Rightarrow> bool" where
  "requests_more patterns m = (\<exists>p \<in> set patterns. js_includes (toLowerCase (content m)) p)"

definition later_requests :: "string list \<Rightarrow> real \<Rightarrow> message list \<Rightarrow> message list" where
  "later_requests patterns t messages =
     filter (\<lambda>m. role m = User \<and> t < timestamp m \<and> requests_more patterns m) messages"

lemma detectSaturation_unfold:
  "detectSaturation messages options =
     (let t = sat_threshold options;
          subs = substantive (sat_minLength options) messages
      in if int (length subs) < t then Inr False
         else case js_index subs (t - 1) of
                None \<Rightarrow> Inl TypeError
              | Some response \<Rightarrow>
                  Inr (2 \<le> length (later_requests (sat_patterns options) (timestamp response)
                                     messages)))"
proof -
  have lr: "later_requests ps ts messages =
      filter (\<lambda>m. list_ex (js_includes (toLowerCase (content m))) ps)
        (filter (\<lambda>m. role m = User \<and> ts < timestamp m) messages)" for ts ps
    by (simp add: later_requests_def requests_more_def list_ex_iff conj_assoc)
  show ?thesis
    unfolding detectSaturation_def sat_threshold_def sat_minLength_def sat_patterns_def
      substantive_def no_saturation_options_def Let_def
    by (cases options) (simp_all add: lr del: filter_filter split: option.split)
qed

lemma js_index_Some: "0 \<le> i \<Longrightarrow> i < int (length xs) \<Longrightarrow> js_index xs i = Some (xs ! nat i)"
  by (simp add: js_index_def)

lemma js_index_None: "i < 0 \<Longrightarrow> js_index xs i = None"
  by (simp add: js_index_def)

text \<open>
  Claim C4, amended. With \<open>assistantResponseThreshold \<ge> 1\<close>, \<open>detectSaturation\<close> returns
  (it does not throw): false when fewer than \<open>assistantResponseThreshold\<close> assistant
  messages have a content length of at least \<open>minAssistantLength\<close>; otherwise true exactly
  when at least 2 user messages with a timestamp strictly later than that of the
  \<open>assistantResponseThreshold\<close>-th such assistant message (in conversation order, counted
  from 1) have a lowercased content that contains one of the patterns.
\<close>

theorem detectSaturation_spec:
  assumes "1 \<le> sat_threshold options"
  shows "detectSaturation messages options =
     Inr (if int (length (substantive (sat_minLength options) messages)) < sat_threshold options
          then False
          else 2 \<le> length (later_requests (sat_patterns options)
                  (timestamp (substantive (sat_minLength options) messages
                                ! (nat (sat_threshold options) - 1)))
                  messages))"
proof -
  define t where "t = sat_threshold options"
  define subs where "subs = substantive (sat_minLength options) messages"
  show ?thesis
  proof (cases "int (length subs) < t")
    case True
    then show ?thesis
      by (simp add: detectSaturation_unfold t_def subs_def)
  next
    case False
    have "js_index subs (t - 1) = Some (subs ! nat (t - 1))"
      using assms False by (intro js_index_Some) (simp_all add: t_def)
    moreover have "nat (t - 1) = nat t - 1"
      using assms by (simp add: t_def nat_diff_distrib)
    ultimately show ?thesis
      using False by (simp add: detectSaturation_unfold t_def[symmetric] subs_def[symmetric])
  qed
qed

lemma detectSaturation_returns:
  assumes "1 \<le> sat_threshold options"
  shows "\<exists>b. detectSaturation messages options = Inr b"
proof (cases "int (length (substantive (sat_minLength options) messages)) < sat_threshold options")
  case True
  then show ?thesis by (auto simp: detectSaturation_unfold)
next
  case False
  then have "js_index (substantive (sat_minLength options) messages) (sat_threshold options - 1)
      = Some (substantive (sat_minLength options) messages ! nat (sat_threshold options - 1))"
    using assms by (intro js_index_Some) simp_all
  then show ?thesis using False by (simp add: detectSaturation_unfold)
qed

lemma detectSaturation_throws:
  assumes "sat_threshold options \<le> 0"
  shows "detectSaturation messages options = Inl TypeError"
  using assms by (simp add: detectSaturation_unfold js_index_None)


text \<open>With \<open>assistantResponseThreshold = 0\<close> the length test passes on every conversation
  and the code reads \<^verbatim>\<open>substantiveResponses[-1].timestamp\<close>: it throws, where the claim
  has it return a boolean.\<close>

definition zero_threshold :: "saturation_options option" where
  "zero_threshold =
     Some \<lparr> assistantResponseThreshold = Some 0, minAssistantLength = None,
            requestPatterns = None \<rparr>"

theorem detectSaturation_counterexample:
  "detectSaturation [] zero_threshold = Inl TypeError \<and>
   detectSaturation [] zero_threshold \<noteq> Inr False \<and>
   detectSaturation [] zero_threshold \<noteq> Inr True"
proof -
  have "sat_threshold zero_threshold \<le> 0"
    by (simp add: sat_threshold_def zero_threshold_def)
  then have "detectSaturation [] zero_threshold = Inl TypeError"
    by (rule detectSaturation_throws)
  then show ?thesis by simp
qed

lemma js_includes_sublist: "js_includes s p = sublist p s"
proof -
  have pre: "is_prefix p s = prefix p s" for s
    by (induction p s rule: is_prefix.induct) simp_all
  show ?thesis
    by (induction s) (simp_all add: pre sublist_Cons_right)
qed

section \<open>Combined check\<close>

definition check_opts :: "check_options option \<Rightarrow> check_options" where
  "check_opts options = (case options of None \<Rightarrow> no_check_options | Some r \<Rightarrow> r)"

definition all_tags :: "string list" where
  "all_tags = [''loop'', ''velocity-collapse'', ''scope-creep'', ''saturation'']"

definition tags :: "bool \<Rightarrow> bool \<Rightarrow> bool \<Rightarrow> bool \<Rightarrow> string list" where
  "tags l v c s =
     push_if s ''saturation'' (push_if c ''scope-creep''
       (push_if v ''velocity-collapse'' (push_if l ''loop'' [])))"

lemma check_unfold:
  "check messages options =
     (case detectSaturation messages (saturation (check_opts options)) of
        Inl e \<Rightarrow> Inl e
      | Inr s \<Rightarrow>
          Inr \<lparr> triggered =
                  0 < length (tags (detectLoop messages (loop (check_opts options)))
                     (detectVelocityCollapse messages (velocityCollapse (check_opts options)))
                     (detectScopeCreep messages (scopeCreep (check_opts options))) s),
                signals = tags (detectLoop messages (loop (check_opts options)))
                     (detectVelocityCollapse messages (velocityCollapse (check_opts options)))
                     (detectScopeCreep messages (scopeCreep (check_opts options))) s \<rparr>)"
  unfolding check_def check_opts_def tags_def Let_def by (rule refl)

lemma tags_properties:
  "(tags l v c s \<noteq> []) = (l \<or> v \<or> c \<or> s) \<and>
   subseq (tags l v c s) all_tags \<and> distinct (tags l v c s) \<and>
   (''loop'' \<in> set (tags l v c s)) = l \<and>
   (''velocity-collapse'' \<in> set (tags l v c s)) = v \<and>
   (''scope-creep'' \<in> set (tags l v c s)) = c \<and>
   (''saturation'' \<in> set (tags l v c s)) = s"
  by (cases l; cases v; cases c; cases s) (simp_all add: tags_def push_if_def all_tags_def)

text \<open>
  Claim C6. \<open>check\<close> returns a result whenever the saturation threshold in force is at
  least 1 (as the default is), and every result it returns satisfies: \<open>triggered\<close> is true
  exactly when \<open>signals\<close> is not empty; \<open>signals\<close> is a subsequence of
  \<open>[loop, velocity-collapse, scope-creep, saturation]\<close>, each tag at most once; and a tag is
  in \<open>signals\<close> exactly when its detector, applied to the conversation with its own options
  sub-record, returns true.
\<close>

theorem check_result:
  "(1 \<le> sat_threshold (saturation (check_opts options)) \<longrightarrow>
      (\<exists>r. check messages options = Inr r)) \<and>
   (\<forall>r. check messages options = Inr r \<longrightarrow>
      triggered r = (signals r \<noteq> []) \<and>
      subseq (signals r) all_tags \<and> distinct (signals r) \<and>
      (''loop'' \<in> set (signals r)) = detectLoop messages (loop (check_opts options)) \<and>
      (''velocity-collapse'' \<in> set (signals r)) =
        detectVelocityCollapse messages (velocityCollapse (check_opts options)) \<and>
      (''scope-creep'' \<in> set (signals r)) =
        detectScopeCreep messages (scopeCreep (check_opts options)) \<and>
      (''saturation'' \<in> set (signals r)) =
        (detectSaturation messages (saturation (check_opts options)) = Inr True))"
proof (intro conjI impI allI)
  assume "1 \<le> sat_threshold (saturation (check_opts options))"
  then obtain s where "detectSaturation messages (saturation (check_opts options)) = Inr s"
    using detectSaturation_returns by blast
  then show "\<exists>r. check messages options = Inr r"
    by (simp add: check_unfold)
next
  fix r
  assume r: "check messages options = Inr r"
  define l where "l = detectLoop messages (loop (check_opts options))"
  define v where "v = detectVelocityCollapse messages (velocityCollapse (check_opts options))"
  define c where "c = detectScopeCreep messages (scopeCreep (check_opts options))"
  obtain s where s: "detectSaturation messages (saturation (check_opts options)) = Inr s"
    and sig: "signals r = tags l v c s" and trig: "triggered r = (0 < length (tags l v c s))"
    using r unfolding check_unfold l_def v_def c_def
    by (cases "detectSaturation messages (saturation (check_opts options))") auto
  note p = tags_properties[of l v c s]
  show "triggered r = (signals r \<noteq> [])" by (simp add: trig sig)
  show "subseq (signals r) all_tags" using p by (simp add: sig)
  show "distinct (signals r)" using p by (simp add: sig)
  show "(''loop'' \<in> set (signals r)) = detectLoop messages (loop (check_opts options))"
    using p by (simp add: sig l_def)
  show "(''velocity-collapse'' \<in> set (signals r)) =
      detectVelocityCollapse messages (velocityCollapse (check_opts options))"
    using p by (simp add: sig v_def)
  show "(''scope-creep'' \<in> set (signals r)) =
      detectScopeCreep messages (scopeCreep (check_opts options))"
    using p by (simp add: sig c_def)
  show "(''saturation'' \<in> set (signals r)) =
      (detectSaturation messages (saturation (check_opts options)) = Inr True)"
    using p by (simp add: sig s)
qed

lemma detectSaturation_logo: "detectSaturation logo_conversation None = Inr False"
  by (simp add: detectSaturation_unfold sat_threshold_def sat_minLength_def substantive_def
      logo_conversation_def num_of_nat_def js_ge_def js_le_def)

theorem check_result_witness:
  "1 \<le> sat_threshold (saturation (check_opts None)) \<and>
   (\<exists>r. check logo_conversation None = Inr r \<and> triggered r \<and>
        ''loop'' \<in> set (signals r) \<and> ''saturation'' \<notin> set (signals r))"
proof -
  have h: "1 \<le> sat_threshold (saturation (check_opts None))"
    by (simp add: check_opts_def no_check_options_def sat_threshold_def)
  have opts: "loop (check_opts None) = None" "saturation (check_opts None) = None"
    by (simp_all add: check_opts_def no_check_options_def)
  from check_result[of None logo_conversation] h
  obtain r where r: "check logo_conversation None = Inr r" by blast
  with check_result[of None logo_conversation]
  have "triggered r = (signals r \<noteq> [])"
    and "(''loop'' \<in> set (signals r)) = detectLoop logo_conversation None"
    and "(''saturation'' \<in> set (signals r)) = (detectSaturation logo_conversation None = Inr True)"
    unfolding opts by blast+
  then have "triggered r \<and> ''loop'' \<in> set (signals r) \<and> ''saturation'' \<notin> set (signals r)"
    using detectLoop_logo detectSaturation_logo by auto
  then show ?thesis using h r by blast
qed

text \<open>The loop scenario of the repository's tests.\<close>

definition rewrite1 :: string where "rewrite1 = ''Rewrite the intro paragraph''"
definition rewrite2 :: string where "rewrite2 = ''Rewrite the intro paragraph differently''"
definition rewrite3 :: string where "rewrite3 = ''Rewrite the intro paragraph again please''"

lemma tok_rewrite1: "tokenise rewrite1 = [''rewrite'', ''the'', ''intro'', ''paragraph'']"
  unfolding rewrite1_def by code_simp
lemma tok_rewrite2:
  "tokenise rewrite2 = [''rewrite'', ''the'', ''intro'', ''paragraph'', ''differently'']"
  unfolding rewrite2_def by code_simp
lemma tok_rewrite3:
  "tokenise rewrite3 = [''rewrite'', ''the'', ''intro'', ''paragraph'', ''again'', ''please'']"
  unfolding rewrite3_def by code_simp

lemma cos_rewrite12:
  "cosineSimilarity [''rewrite'', ''the'', ''intro'', ''paragraph'']
     [''rewrite'', ''the'', ''intro'', ''paragraph'', ''differently''] =
   quotient_score (Fin 4) (Fin 4) (Fin 5)"
  unfolding cosineSimilarity_totals by (simp add: eval_defs round_double_Nats)

lemma cos_rewrite23:
  "cosineSimilarity [''rewrite'', ''the'', ''intro'', ''paragraph'', ''differently'']
     [''rewrite'', ''the'', ''intro'', ''paragraph'', ''again'', ''please''] =
   quotient_score (Fin 4) (Fin 5) (Fin 6)"
  unfolding cosineSimilarity_totals by (simp add: eval_defs round_double_Nats)

text \<open>
  Claim C8. When the user messages of a conversation are exactly "Rewrite the intro
  paragraph", "Rewrite the intro paragraph differently" and "Rewrite the intro paragraph
  again please", in that order and with any assistant messages between them,
  \<open>detectLoop\<close> with the default options returns true, and \<open>check\<close> with the default options
  returns a result whose \<open>signals\<close> contain \<open>loop\<close>.
\<close>

theorem loop_scenario:
  assumes "map content (user_messages messages) = [rewrite1, rewrite2, rewrite3]"
  shows "detectLoop messages None \<and>
         (\<exists>r. check messages None = Inr r \<and> ''loop'' \<in> set (signals r))"
proof -
  from assms obtain m1 m2 m3 where us: "user_messages messages = [m1, m2, m3]"
    and c: "content m1 = rewrite1" "content m2 = rewrite2" "content m3 = rewrite3"
    by (auto simp: map_eq_Cons_conv)
  have s12: "similar (round_double (6 / 10)) m1 m2"
    unfolding similar_def c tok_rewrite1 tok_rewrite2 cos_rewrite12
    by (rule quotient_score_ge) (simp_all add: power2_eq_square)
  have s23: "similar (round_double (6 / 10)) m2 m3"
    unfolding similar_def c tok_rewrite2 tok_rewrite3 cos_rewrite23
    by (rule quotient_score_ge) (simp_all add: power2_eq_square)
  have l: "detectLoop messages None"
    by (simp only: detectLoop_three[OF us] s12 s23 simp_thms)
  have opts: "loop (check_opts None) = None" "saturation (check_opts None) = None"
    by (simp_all add: check_opts_def no_check_options_def)
  have "1 \<le> sat_threshold None" by (simp add: sat_threshold_def)
  then obtain s where s: "detectSaturation messages None = Inr s"
    using detectSaturation_returns by blast
  have "\<exists>r. check messages None = Inr r \<and> ''loop'' \<in> set (signals r)"
    using tags_properties[of True] l by (simp add: check_unfold opts s)
  with l show ?thesis by simp
qed

definition loopConversation :: "message list" where
  "loopConversation =
     [msg User rewrite1 0,
      msg Assistant ''Here's a rewrite.'' 30000,
      msg User rewrite2 60000,
      msg Assistant ''Another version.'' 90000,
      msg User rewrite3 120000]"

theorem loop_scenario_witness:
  "map content (user_messages loopConversation) = [rewrite1, rewrite2, rewrite3] \<and>
   detectLoop loopConversation None \<and>
   (\<exists>r. check loopConversation None = Inr r \<and> ''loop'' \<in> set (signals r))"
proof -
  have h: "map content (user_messages loopConversation) = [rewrite1, rewrite2, rewrite3]"
    by (simp add: user_messages_def loopConversation_def)
  show ?thesis
    using loop_scenario[OF h] h by simp
qed

text \<open>The saturation scenario of the repository's tests.\<close>

definition saturationConversation :: "message list" where
  "saturationConversation =
     [msg User ''Compare these two job offers for me'' 0,
      msg Assistant (replicate 300 (CHR ''A'')) 30000,
      msg User ''What about the benefits?'' 60000,
      msg Assistant (replicate 300 (CHR ''B'')) 90000,
      msg User ''Can you also look at commute times?'' 120000,
      msg Assistant (replicate 300 (CHR ''C'')) 150000,
      msg User ''What about career growth?'' 180000,
      msg Assistant (replicate 300 (CHR ''D'')) 210000,
      msg User ''Can you also compare the company cultures?'' 240000,
      msg User ''And what about work-life balance? Give me more on that'' 270000]"

lemma requests_more_1:
  "requests_more default_requestPatterns (msg User ''What about career growth?'' t)"
  unfolding requests_more_def msg_sel by code_simp

lemma requests_more_2:
  "requests_more default_requestPatterns
     (msg User ''Can you also compare the company cultures?'' t)"
  unfolding requests_more_def msg_sel by code_simp

lemma requests_more_3:
  "requests_more default_requestPatterns
     (msg User ''And what about work-life balance? Give me more on that'' t)"
  unfolding requests_more_def msg_sel by code_simp

lemma substantive_saturationConversation:
  "substantive (Fin 200) saturationConversation =
     [msg Assistant (replicate 300 (CHR ''A'')) 30000,
      msg Assistant (replicate 300 (CHR ''B'')) 90000,
      msg Assistant (replicate 300 (CHR ''C'')) 150000,
      msg Assistant (replicate 300 (CHR ''D'')) 210000]"
  by (simp add: substantive_def saturationConversation_def num_of_nat_def js_ge_def js_le_def)

lemma later_requests_saturationConversation:
  "length (later_requests default_requestPatterns 150000 saturationConversation) = 3"
  by (simp add: later_requests_def saturationConversation_def
      requests_more_1 requests_more_2 requests_more_3)

theorem detectSaturation_spec_witness:
  "1 \<le> sat_threshold None \<and> detectSaturation saturationConversation None = Inr True"
proof -
  have h: "1 \<le> sat_threshold None" by (simp add: sat_threshold_def)
  have t: "sat_threshold None = 3" by (simp add: sat_threshold_def)
  have m: "sat_minLength None = Fin 200" by (simp add: sat_minLength_def)
  have p: "sat_patterns None = default_requestPatterns" by (simp add: sat_patterns_def)
  have ts: "timestamp (substantive (Fin 200) saturationConversation ! 2) = 150000"
    by (simp add: substantive_saturationConversation)
  have len: "length (substantive (Fin 200) saturationConversation) = 4"
    by (simp add: substantive_saturationConversation)
  have "detectSaturation saturationConversation None =
      Inr (2 \<le> length (later_requests default_requestPatterns 150000 saturationConversation))"
    using detectSaturation_spec[OF h, of saturationConversation]
    unfolding t m p by (simp add: len ts)
  then show ?thesis
    using h by (simp add: later_requests_saturationConversation)
qed

end
